theory Spec2Isabelle
  imports Main "HOL-Library.Word"
begin

unbundle bit_operations_syntax

section \<open>The CLIC register interface (include/clic.h)\<close>

text \<open>
  The header reaches the controller through byte-wide memory-mapped registers at
  \<open>CSR_CLIC_BASE + offset + irq\<close>. The registers are modelled as a store from
  32-bit addresses to bytes; \<open>irq\<close> and \<open>hart\<close> are C \<open>unsigned int\<close>, and
  the address arithmetic is taken as 32-bit, as on the 32-bit RISC-V targets. The
  concrete inputs used below stay far from the wrap-around.

  \<open>CSR_CLIC_BASE\<close> and \<open>CONFIG_CPU_INTERRUPTS\<close> come from the generated
  \<open>csr.h\<close>, which is not among the sources: they are parameters of the model.
\<close>

record clic_cfg =
  CSR_CLIC_BASE :: "32 word"
  CONFIG_CPU_INTERRUPTS :: nat

text \<open>
  The state the two source files read and write: the register store, and the
  file-scope variables of the demo (the per-line counter array and the three
  scalars of the handler). \<open>mie\<close> is the global interrupt enable that
  \<open>irq_setie\<close> sets.
\<close>

record clic_state =
  mem :: "32 word \<Rightarrow> 8 word"
  clic_interrupt_count :: "32 word list"
  clic_last_interrupt_id :: "32 word"
  clic_last_interrupt_priority :: "32 word"
  clic_interrupt_cycles :: "32 word"
  mie :: bool

definition CLIC_ATTR_TRIG_MASK :: "8 word" where
  "CLIC_ATTR_TRIG_MASK = 0x03"

definition CLIC_ATTR_TRIG_EDGE :: "8 word" where
  "CLIC_ATTR_TRIG_EDGE = 0x02"

definition CLIC_ATTR_TRIG_LEVEL :: "8 word" where
  "CLIC_ATTR_TRIG_LEVEL = 0x00"

definition CLIC_ATTR_POL_MASK :: "8 word" where
  "CLIC_ATTR_POL_MASK = 0x04"

text \<open>
  The header defines \<open>CLIC_ATTR_POL_POS\<close> twice, first as the bit position 2 and
  then as the bit value 0x04. The second definition is the one in force where
  \<open>clic_configure_interrupt\<close> uses the name.
\<close>

definition CLIC_ATTR_POL_POS :: "8 word" where
  "CLIC_ATTR_POL_POS = 0x04"

definition CLIC_INTIP_OFFSET :: "32 word" where
  "CLIC_INTIP_OFFSET = 0x000"

definition CLIC_INTIE_OFFSET :: "32 word" where
  "CLIC_INTIE_OFFSET = 0x400"

definition CLIC_INTATTR_OFFSET :: "32 word" where
  "CLIC_INTATTR_OFFSET = 0x800"

definition CLIC_INTPRIO_OFFSET :: "32 word" where
  "CLIC_INTPRIO_OFFSET = 0xC00"

definition CLIC_MITHRESHOLD_OFFSET :: "32 word" where
  "CLIC_MITHRESHOLD_OFFSET = 0x1000"

definition intip_addr :: "clic_cfg \<Rightarrow> 32 word \<Rightarrow> 32 word" where
  "intip_addr c irq = CSR_CLIC_BASE c + CLIC_INTIP_OFFSET + irq"

definition intie_addr :: "clic_cfg \<Rightarrow> 32 word \<Rightarrow> 32 word" where
  "intie_addr c irq = CSR_CLIC_BASE c + CLIC_INTIE_OFFSET + irq"

definition intattr_addr :: "clic_cfg \<Rightarrow> 32 word \<Rightarrow> 32 word" where
  "intattr_addr c irq = CSR_CLIC_BASE c + CLIC_INTATTR_OFFSET + irq"

definition intprio_addr :: "clic_cfg \<Rightarrow> 32 word \<Rightarrow> 32 word" where
  "intprio_addr c irq = CSR_CLIC_BASE c + CLIC_INTPRIO_OFFSET + irq"

definition mithreshold_addr :: "clic_cfg \<Rightarrow> 32 word \<Rightarrow> 32 word" where
  "mithreshold_addr c hart = CSR_CLIC_BASE c + CLIC_MITHRESHOLD_OFFSET + (hart * 0x1000)"

definition clic_get_intip :: "clic_cfg \<Rightarrow> 32 word \<Rightarrow> clic_state \<Rightarrow> 8 word" where
  "clic_get_intip c irq s = mem s (intip_addr c irq)"

definition clic_set_intip :: "clic_cfg \<Rightarrow> 32 word \<Rightarrow> 8 word \<Rightarrow> clic_state \<Rightarrow> clic_state" where
  "clic_set_intip c irq v s = s\<lparr>mem := (mem s)(intip_addr c irq := v)\<rparr>"

definition clic_get_intie :: "clic_cfg \<Rightarrow> 32 word \<Rightarrow> clic_state \<Rightarrow> 8 word" where
  "clic_get_intie c irq s = mem s (intie_addr c irq)"

definition clic_set_intie :: "clic_cfg \<Rightarrow> 32 word \<Rightarrow> 8 word \<Rightarrow> clic_state \<Rightarrow> clic_state" where
  "clic_set_intie c irq v s = s\<lparr>mem := (mem s)(intie_addr c irq := v)\<rparr>"

definition clic_get_intattr :: "clic_cfg \<Rightarrow> 32 word \<Rightarrow> clic_state \<Rightarrow> 8 word" where
  "clic_get_intattr c irq s = mem s (intattr_addr c irq)"

definition clic_set_intattr :: "clic_cfg \<Rightarrow> 32 word \<Rightarrow> 8 word \<Rightarrow> clic_state \<Rightarrow> clic_state" where
  "clic_set_intattr c irq v s = s\<lparr>mem := (mem s)(intattr_addr c irq := v)\<rparr>"

definition clic_get_intprio :: "clic_cfg \<Rightarrow> 32 word \<Rightarrow> clic_state \<Rightarrow> 8 word" where
  "clic_get_intprio c irq s = mem s (intprio_addr c irq)"

definition clic_set_intprio :: "clic_cfg \<Rightarrow> 32 word \<Rightarrow> 8 word \<Rightarrow> clic_state \<Rightarrow> clic_state" where
  "clic_set_intprio c irq v s = s\<lparr>mem := (mem s)(intprio_addr c irq := v)\<rparr>"

definition clic_get_mithreshold :: "clic_cfg \<Rightarrow> 32 word \<Rightarrow> clic_state \<Rightarrow> 8 word" where
  "clic_get_mithreshold c hart s = mem s (mithreshold_addr c hart)"

definition clic_set_mithreshold :: "clic_cfg \<Rightarrow> 32 word \<Rightarrow> 8 word \<Rightarrow> clic_state \<Rightarrow> clic_state" where
  "clic_set_mithreshold c hart v s = s\<lparr>mem := (mem s)(mithreshold_addr c hart := v)\<rparr>"

subsection \<open>Higher-level helpers\<close>

definition clic_enable_interrupt :: "clic_cfg \<Rightarrow> 32 word \<Rightarrow> clic_state \<Rightarrow> clic_state" where
  "clic_enable_interrupt c irq s = clic_set_intie c irq 1 s"

definition clic_disable_interrupt :: "clic_cfg \<Rightarrow> 32 word \<Rightarrow> clic_state \<Rightarrow> clic_state" where
  "clic_disable_interrupt c irq s = clic_set_intie c irq 0 s"

definition clic_is_pending :: "clic_cfg \<Rightarrow> 32 word \<Rightarrow> clic_state \<Rightarrow> bool" where
  "clic_is_pending c irq s \<longleftrightarrow> clic_get_intip c irq s \<noteq> 0"

definition clic_clear_pending :: "clic_cfg \<Rightarrow> 32 word \<Rightarrow> clic_state \<Rightarrow> clic_state" where
  "clic_clear_pending c irq s = clic_set_intip c irq 0 s"

definition clic_set_pending :: "clic_cfg \<Rightarrow> 32 word \<Rightarrow> clic_state \<Rightarrow> clic_state" where
  "clic_set_pending c irq s = clic_set_intip c irq 1 s"

definition clic_configure_interrupt ::
  "clic_cfg \<Rightarrow> 32 word \<Rightarrow> 8 word \<Rightarrow> bool \<Rightarrow> bool \<Rightarrow> clic_state \<Rightarrow> clic_state" where
  "clic_configure_interrupt c irq priority edge_triggered positive_polarity s =
     (let attr0 = (0 :: 8 word);
          attr1 = (if edge_triggered then attr0 OR CLIC_ATTR_TRIG_EDGE else attr0);
          attr2 = (if positive_polarity then attr1 OR CLIC_ATTR_POL_POS else attr1);
          s1 = clic_set_intattr c irq attr2 s
      in clic_set_intprio c irq priority s1)"

text \<open>
  The header has no reader for the enable bit as it has \<open>clic_is_pending\<close> for
  the pending bit; \<open>is_enabled\<close> reads the enable register the same way.
\<close>

definition is_enabled :: "clic_cfg \<Rightarrow> 32 word \<Rightarrow> clic_state \<Rightarrow> bool" where
  "is_enabled c irq s \<longleftrightarrow> clic_get_intie c irq s \<noteq> 0"

text \<open>The attribute byte decoded with the header's masks.\<close>

definition is_edge_triggered :: "clic_cfg \<Rightarrow> 32 word \<Rightarrow> clic_state \<Rightarrow> bool" where
  "is_edge_triggered c irq s \<longleftrightarrow>
     clic_get_intattr c irq s AND CLIC_ATTR_TRIG_MASK = CLIC_ATTR_TRIG_EDGE"

definition is_positive_polarity :: "clic_cfg \<Rightarrow> 32 word \<Rightarrow> clic_state \<Rightarrow> bool" where
  "is_positive_polarity c irq s \<longleftrightarrow>
     clic_get_intattr c irq s AND CLIC_ATTR_POL_MASK = CLIC_ATTR_POL_POS"

text \<open>
  A line id is valid when it is below the configured interrupt count. Each of the
  four per-line register blocks is 0x400 bytes long, so the blocks of distinct
  lines are distinct bytes only for at most 0x400 lines.
\<close>

definition valid_irq :: "clic_cfg \<Rightarrow> 32 word \<Rightarrow> bool" where
  "valid_irq c irq \<longleftrightarrow> unat irq < CONFIG_CPU_INTERRUPTS c"

definition cfg_ok :: "clic_cfg \<Rightarrow> bool" where
  "cfg_ok c \<longleftrightarrow> CONFIG_CPU_INTERRUPTS c \<le> 0x400"

section \<open>The demo (demo/clic_demo.c)\<close>

text \<open>
  \<open>clic_interrupt_count\<close> is a C array of \<open>CONFIG_CPU_INTERRUPTS\<close> counters,
  modelled as a list of that length.
\<close>

definition state_ok :: "clic_cfg \<Rightarrow> clic_state \<Rightarrow> bool" where
  "state_ok c s \<longleftrightarrow> length (clic_interrupt_count s) = CONFIG_CPU_INTERRUPTS c"

text \<open>
  Indexing the counter array outside its bounds is undefined behaviour in C; the model
  makes it a fault, so that every such access is a visible branch.
\<close>

datatype fault = ArrayOutOfBounds

text \<open>
  The default (weak) handler. Its first statement indexes the counter array with
  \<open>id\<close> (written \<open>id'\<close> below); the comparison of \<open>id\<close> with
  \<open>CONFIG_CPU_INTERRUPTS\<close> comes after the four updates and guards only
  \<open>clic_clear_pending\<close>. The closing \<open>printf\<close> reads the same array element
  again and changes nothing.
\<close>

definition clic_interrupt_handler ::
  "clic_cfg \<Rightarrow> 32 word \<Rightarrow> 32 word \<Rightarrow> clic_state \<Rightarrow> fault + clic_state" where
  "clic_interrupt_handler c id' priority s =
     (if unat id' < length (clic_interrupt_count s) then
        (let s1 = s\<lparr>clic_interrupt_count :=
                     (clic_interrupt_count s)[unat id' := clic_interrupt_count s ! unat id' + 1]\<rparr>;
             s2 = s1\<lparr>clic_last_interrupt_id := id'\<rparr>;
             s3 = s2\<lparr>clic_last_interrupt_priority := priority\<rparr>;
             s4 = s3\<lparr>clic_interrupt_cycles := clic_interrupt_cycles s3 + 1\<rparr>;
             s5 = (if unat id' < CONFIG_CPU_INTERRUPTS c then clic_clear_pending c id' s4 else s4)
         in Inr s5)
      else Inl ArrayOutOfBounds)"

text \<open>
  The two loops of \<open>clic_init\<close>. The counter \<open>i\<close> is an \<open>unsigned int\<close> that
  stays below \<open>CONFIG_CPU_INTERRUPTS\<close>; it is a \<open>nat\<close> here and is converted
  where it is passed as a line id.
\<close>

function clear_counts_loop :: "clic_cfg \<Rightarrow> nat \<Rightarrow> clic_state \<Rightarrow> clic_state" where
  "clear_counts_loop c i s =
     (if i < CONFIG_CPU_INTERRUPTS c
      then clear_counts_loop c (Suc i)
             (s\<lparr>clic_interrupt_count := (clic_interrupt_count s)[i := 0]\<rparr>)
      else s)"
  by pat_completeness auto
termination
  by (relation "measure (\<lambda>(c, i, s). CONFIG_CPU_INTERRUPTS c - i)") auto

declare clear_counts_loop.simps [simp del]

function disable_all_loop :: "clic_cfg \<Rightarrow> nat \<Rightarrow> clic_state \<Rightarrow> clic_state" where
  "disable_all_loop c i s =
     (if i < CONFIG_CPU_INTERRUPTS c
      then disable_all_loop c (Suc i)
             (clic_clear_pending c (of_nat i) (clic_disable_interrupt c (of_nat i) s))
      else s)"
  by pat_completeness auto
termination
  by (relation "measure (\<lambda>(c, i, s). CONFIG_CPU_INTERRUPTS c - i)") auto

declare disable_all_loop.simps [simp del]

text \<open>\<open>irq_setie\<close> (irq.h) sets the global machine interrupt enable.\<close>

definition irq_setie :: "bool \<Rightarrow> clic_state \<Rightarrow> clic_state" where
  "irq_setie ie s = s\<lparr>mie := ie\<rparr>"

definition clic_init :: "clic_cfg \<Rightarrow> clic_state \<Rightarrow> clic_state" where
  "clic_init c s =
     (let s1 = clear_counts_loop c 0 s;
          s2 = disable_all_loop c 0 s1;
          s3 = clic_set_mithreshold c 0 0 s2
      in irq_setie True s3)"

text \<open>
  The register bytes the second loop of \<open>clic_init\<close> writes from index \<open>i\<close>
  on: the enable and the pending byte of every line it still visits.
\<close>

definition init_written :: "clic_cfg \<Rightarrow> nat \<Rightarrow> 32 word \<Rightarrow> bool" where
  "init_written c i a \<longleftrightarrow>
     (\<exists>k. i \<le> k \<and> k < CONFIG_CPU_INTERRUPTS c \<and>
          (a = intie_addr c (of_nat k) \<or> a = intip_addr c (of_nat k)))"

subsection \<open>The threshold test\<close>

text \<open>
  \<open>test_interrupt_threshold\<close> sets the threshold of hart 0 to 100 and labels
  each of its lines by its priority: \<open>(priorities[i] < 100) ? allowed : blocked\<close>.
  The test holds the priorities as \<open>unsigned int\<close>.
\<close>

definition threshold_test_allowed :: "32 word \<Rightarrow> bool" where
  "threshold_test_allowed priority \<longleftrightarrow> priority < 100"

subsection \<open>The latency test\<close>

text \<open>
  The two kinds of error of the specification. The code has a timeout branch in the
  latency test; none of its functions produces \<open>InvalidLine\<close>.
\<close>

datatype clic_error = InvalidLine | Timeout

text \<open>
  \<open>test_interrupt_latency\<close> spins on the volatile counter of its line, which the
  handler changes asynchronously. The values the successive reads of the counter
  return are an input of the model: \<open>obs k\<close> is what the read number \<open>k\<close> of one
  trial sees. The loop condition reads the counter once per evaluation, so the read
  at \<open>cycles = k\<close> is read number \<open>k\<close>, and the \<open>if\<close> after the loop is
  the next read.
\<close>

function wait_for_service :: "(nat \<Rightarrow> 32 word) \<Rightarrow> 32 word \<Rightarrow> 32 word" where
  "wait_for_service obs cycles =
     (if obs (unat cycles) = 0 \<and> cycles < 10000
      then wait_for_service obs (cycles + 1)
      else cycles)"
  by pat_completeness auto
termination
proof (relation "measure (\<lambda>(obs, cycles). 10000 - unat cycles)")
  show "wf (measure (\<lambda>(obs, cycles). 10000 - unat cycles))"
    by simp
next
  fix obs :: "nat \<Rightarrow> 32 word" and cycles :: "32 word"
  assume a: "obs (unat cycles) = 0 \<and> cycles < 10000"
  then have lt: "unat cycles < 10000"
    by (simp add: word_less_nat_alt)
  then have "unat cycles + unat (1 :: 32 word) < 2 ^ 32"
    by simp
  then have "unat (cycles + 1) = unat cycles + 1"
    using unat_add_lem [of cycles 1] by simp
  with lt show "((obs, cycles + 1), (obs, cycles)) \<in> measure (\<lambda>(obs, cycles). 10000 - unat cycles)"
    by simp
qed

declare wait_for_service.simps [simp del]

text \<open>
  One iteration of the measurement loop, from the reset of \<open>cycles\<close> to the two
  \<open>printf\<close> branches: the result is the new \<open>total_latency\<close> and what the
  iteration reports, the cycle count or \<open>TIMEOUT\<close>.
\<close>

definition latency_trial ::
  "(nat \<Rightarrow> 32 word) \<Rightarrow> 32 word \<Rightarrow> 32 word \<times> (clic_error + 32 word)" where
  "latency_trial obs total_latency =
     (let cycles = wait_for_service obs 0
      in if obs (unat cycles + 1) > 0
         then (total_latency + cycles, Inr cycles)
         else (total_latency, Inl Timeout))"

definition iterations :: nat where
  "iterations = 10"

function latency_loop ::
  "(nat \<Rightarrow> nat \<Rightarrow> 32 word) \<Rightarrow> nat \<Rightarrow> 32 word \<Rightarrow> (clic_error + 32 word) list
    \<Rightarrow> 32 word \<times> (clic_error + 32 word) list" where
  "latency_loop obs i total_latency reports =
     (if i < iterations
      then (case latency_trial (obs i) total_latency of
              (total', r) \<Rightarrow> latency_loop obs (Suc i) total' (reports @ [r]))
      else (total_latency, reports))"
  by pat_completeness auto
termination
  by (relation "measure (\<lambda>(obs, i, t, rs). iterations - i)") auto

declare latency_loop.simps [simp del]

text \<open>
  The whole test as far as its measurement goes: the per-iteration reports, the final
  \<open>total_latency\<close>, and the average, printed only when the total is positive.
\<close>

definition test_interrupt_latency ::
  "(nat \<Rightarrow> nat \<Rightarrow> 32 word) \<Rightarrow> (clic_error + 32 word) list \<times> 32 word \<times> 32 word option" where
  "test_interrupt_latency obs =
     (case latency_loop obs 0 0 [] of
        (total_latency, reports) \<Rightarrow>
          (reports, total_latency,
           if total_latency > 0 then Some (total_latency div of_nat iterations) else None))"

text \<open>
  The latency samples among the reports of a run: the cycle counts of the iterations
  that took the first \<open>printf\<close> branch, the ones added to \<open>total_latency\<close>.
\<close>

fun samples :: "(clic_error + 32 word) list \<Rightarrow> 32 word list" where
  "samples [] = []"
| "samples (Inr cycles # rs) = cycles # samples rs"
| "samples (Inl e # rs) = samples rs"


section \<open>Threshold gate, arbiter and dispatch loop\<close>

text \<open>
  Modelled from the spec: the threshold gate, the arbiter and the dispatch loop. In the
  repository they are the interrupt controller's hardware and the trap entry that calls
  \<open>clic_interrupt_handler\<close>, neither of which is among the sources. The definitions
  follow sections 4.2 to 4.4 of the specification: a priority is blocked when it is at
  or above the threshold, except that threshold 0 blocks nothing; the arbiter picks,
  among the enabled, pending and unblocked lines, the one with the smallest priority
  value and, on a tie, the lowest id; a poll services the picked line by calling the
  handler with its id and priority, and afterwards clears the pending bit of an
  edge-triggered line.
\<close>

definition blocked :: "8 word \<Rightarrow> 8 word \<Rightarrow> bool" where
  "blocked priority threshold \<longleftrightarrow> threshold \<noteq> 0 \<and> priority \<ge> threshold"

definition eligible :: "clic_cfg \<Rightarrow> 32 word \<Rightarrow> clic_state \<Rightarrow> bool" where
  "eligible c irq s \<longleftrightarrow>
     is_enabled c irq s \<and> clic_is_pending c irq s \<and>
     \<not> blocked (clic_get_intprio c irq s) (clic_get_mithreshold c 0 s)"

definition pick :: "clic_cfg \<Rightarrow> clic_state \<Rightarrow> nat \<Rightarrow> nat option \<Rightarrow> nat option" where
  "pick c s i best =
     (if eligible c (of_nat i) s \<and>
         (case best of
            None \<Rightarrow> True
          | Some b \<Rightarrow> clic_get_intprio c (of_nat i) s < clic_get_intprio c (of_nat b) s)
      then Some i else best)"

definition select_next :: "clic_cfg \<Rightarrow> clic_state \<Rightarrow> 32 word option" where
  "select_next c s = map_option of_nat (fold (pick c s) [0..<CONFIG_CPU_INTERRUPTS c] None)"

definition service :: "clic_cfg \<Rightarrow> 32 word \<Rightarrow> clic_state \<Rightarrow> fault + clic_state" where
  "service c irq s =
     (case clic_interrupt_handler c irq (ucast (clic_get_intprio c irq s)) s of
        Inl f \<Rightarrow> Inl f
      | Inr s' \<Rightarrow> Inr (if is_edge_triggered c irq s' then clic_clear_pending c irq s' else s'))"

definition dispatch_poll :: "clic_cfg \<Rightarrow> clic_state \<Rightarrow> fault + clic_state" where
  "dispatch_poll c s =
     (case select_next c s of
        None \<Rightarrow> Inr s
      | Some irq \<Rightarrow> service c irq s)"

fun dispatch_polls :: "clic_cfg \<Rightarrow> nat \<Rightarrow> clic_state \<Rightarrow> fault + clic_state" where
  "dispatch_polls c 0 s = Inr s"
| "dispatch_polls c (Suc n) s =
     (case dispatch_poll c s of
        Inl f \<Rightarrow> Inl f
      | Inr s' \<Rightarrow> dispatch_polls c n s')"

section \<open>The registry operations as the specification words them\<close>

text \<open>
  The specification gives \<open>configure\<close> and \<open>set_pending\<close> an error result for
  an id outside \<open>0..N-1\<close>. These two definitions follow its words, to be compared
  with the functions of the header. \<open>call_void\<close> is what the caller of one of the
  header's functions gets: they return \<open>void\<close> and have no error path, so a call
  always completes with the state the function leaves.
\<close>

definition configure_spec ::
  "clic_cfg \<Rightarrow> 32 word \<Rightarrow> 8 word \<Rightarrow> bool \<Rightarrow> bool \<Rightarrow> clic_state \<Rightarrow> clic_error + clic_state" where
  "configure_spec c irq priority edge_triggered positive_polarity s =
     (if unat irq \<ge> CONFIG_CPU_INTERRUPTS c then Inl InvalidLine
      else Inr (clic_configure_interrupt c irq priority edge_triggered positive_polarity s))"

definition set_pending_spec :: "clic_cfg \<Rightarrow> 32 word \<Rightarrow> clic_state \<Rightarrow> clic_error + clic_state" where
  "set_pending_spec c irq s =
     (if unat irq \<ge> CONFIG_CPU_INTERRUPTS c then Inl InvalidLine
      else Inr (clic_set_pending c irq s))"

definition call_void :: "(clic_state \<Rightarrow> clic_state) \<Rightarrow> clic_state \<Rightarrow> clic_error + clic_state" where
  "call_void f s = Inr (f s)"

section \<open>A concrete configuration\<close>

text \<open>
  A configuration with 32 lines (the demo uses ids up to 29) and a state in which
  every register and counter is zero, for evaluating the model on concrete inputs.
\<close>

definition demo_cfg :: clic_cfg where
  "demo_cfg = \<lparr>CSR_CLIC_BASE = 0xF0000000, CONFIG_CPU_INTERRUPTS = 32\<rparr>"

definition zero_state :: clic_state where
  "zero_state =
     \<lparr>mem = (\<lambda>a. 0), clic_interrupt_count = replicate 32 0,
      clic_last_interrupt_id = 0, clic_last_interrupt_priority = 0,
      clic_interrupt_cycles = 0, mie = False\<rparr>"

text \<open>
  Line 16 as \<open>test_trigger_modes\<close> sets it up: level-triggered, priority 128,
  enabled.
\<close>

definition level_line_state :: clic_state where
  "level_line_state =
     clic_enable_interrupt demo_cfg 16
       (clic_configure_interrupt demo_cfg 16 128 False True zero_state)"


text \<open>
  A state whose counter list is longer than \<open>CONFIG_CPU_INTERRUPTS\<close>, with the
  byte at the pending offset of id 35 set: on it the handler's array access at an id
  between the two bounds is in range, which shows what its comparison guards.
\<close>

definition long_counts_state :: clic_state where
  "long_counts_state =
     clic_set_pending demo_cfg 35 (zero_state\<lparr>clic_interrupt_count := replicate 40 0\<rparr>)"

text \<open>
  The registers as \<open>test_interrupt_threshold\<close> has them when it starts to wait:
  lines 10, 11 and 12 configured with priorities 50, 128 and 200 and enabled, the
  threshold of hart 0 at 100, and the three lines set pending.
\<close>

definition threshold_test_state :: clic_state where
  "threshold_test_state =
     (let s1 = clic_enable_interrupt demo_cfg 10
                 (clic_configure_interrupt demo_cfg 10 50 True True zero_state);
          s2 = clic_enable_interrupt demo_cfg 11
                 (clic_configure_interrupt demo_cfg 11 128 True True s1);
          s3 = clic_enable_interrupt demo_cfg 12
                 (clic_configure_interrupt demo_cfg 12 200 True True s2);
          s4 = clic_set_mithreshold demo_cfg 0 100 s3;
          s5 = clic_set_pending demo_cfg 10 s4;
          s6 = clic_set_pending demo_cfg 11 s5
      in clic_set_pending demo_cfg 12 s6)"

text \<open>
  Counter reads of a latency trial in which the service lands after the wait loop has
  used up its cap and before the check that follows the loop.
\<close>

definition late_obs :: "nat \<Rightarrow> 32 word" where
  "late_obs k = (if k \<le> 10000 then 0 else 1)"

section \<open>Register addresses\<close>

lemma reg_addr_eq:
  fixes base a b i j :: "32 word"
  assumes "unat a + unat i < 2 ^ 32" and "unat b + unat j < 2 ^ 32"
  shows "(base + a + i = base + b + j) = (unat a + unat i = unat b + unat j)"
proof -
  have ua: "unat (a + i) = unat a + unat i"
    using assms(1) unat_add_lem [of a i] by simp
  have ub: "unat (b + j) = unat b + unat j"
    using assms(2) unat_add_lem [of b j] by simp
  have "(base + a + i = base + b + j) = (a + i = b + j)"
    by (simp add: add.assoc)
  also have "\<dots> = (unat (a + i) = unat (b + j))"
    by (simp add: word_unat_eq_iff)
  finally show ?thesis by (simp add: ua ub)
qed

lemmas clic_offsets =
  CLIC_INTIP_OFFSET_def CLIC_INTIE_OFFSET_def CLIC_INTATTR_OFFSET_def
  CLIC_INTPRIO_OFFSET_def CLIC_MITHRESHOLD_OFFSET_def

lemmas clic_addrs =
  intip_addr_def intie_addr_def intattr_addr_def intprio_addr_def mithreshold_addr_def

lemmas clic_regs =
  clic_get_intip_def clic_set_intip_def clic_get_intie_def clic_set_intie_def
  clic_get_intattr_def clic_set_intattr_def clic_get_intprio_def clic_set_intprio_def
  clic_get_mithreshold_def clic_set_mithreshold_def

lemmas clic_ops =
  clic_enable_interrupt_def clic_disable_interrupt_def clic_is_pending_def
  clic_clear_pending_def clic_set_pending_def is_enabled_def

text \<open>The four registers of one line are four distinct bytes, whatever the id.\<close>

lemma same_line_addrs:
  "intip_addr c irq \<noteq> intie_addr c irq"
  "intip_addr c irq \<noteq> intattr_addr c irq"
  "intip_addr c irq \<noteq> intprio_addr c irq"
  "intie_addr c irq \<noteq> intattr_addr c irq"
  "intie_addr c irq \<noteq> intprio_addr c irq"
  "intattr_addr c irq \<noteq> intprio_addr c irq"
  by (simp_all add: clic_addrs clic_offsets)

lemma small_irq: "cfg_ok c \<Longrightarrow> valid_irq c i \<Longrightarrow> unat i < 1024"
  by (simp add: cfg_ok_def valid_irq_def)

lemma block_addr_eq:
  fixes base a b i j :: "32 word"
  assumes "unat i < 1024" "unat j < 1024" "unat a \<le> 4096" "unat b \<le> 4096"
  shows "(base + a + i = base + b + j) = (unat a + unat i = unat b + unat j)"
  using assms by (intro reg_addr_eq) simp_all

lemma block_addr_neq:
  fixes base a b i j :: "32 word"
  assumes "unat i < 1024" "unat j < 1024" "unat a \<le> 4096" "unat b \<le> 4096"
    and "unat a + 1024 \<le> unat b \<or> unat b + 1024 \<le> unat a"
  shows "base + a + i \<noteq> base + b + j"
  using block_addr_eq [OF assms(1-4), of base] assms(1,2,5) by arith

text \<open>
  With at most 0x400 lines, the registers of valid lines are pairwise distinct bytes,
  and none of them is the threshold register of hart 0.
\<close>

lemma line_addrs_distinct:
  assumes "cfg_ok c" "valid_irq c i" "valid_irq c j"
  shows "(intip_addr c i = intip_addr c j) = (i = j)"
    "(intie_addr c i = intie_addr c j) = (i = j)"
    "(intattr_addr c i = intattr_addr c j) = (i = j)"
    "(intprio_addr c i = intprio_addr c j) = (i = j)"
    "intip_addr c i \<noteq> intie_addr c j"
    "intip_addr c i \<noteq> intattr_addr c j"
    "intip_addr c i \<noteq> intprio_addr c j"
    "intie_addr c i \<noteq> intip_addr c j"
    "intie_addr c i \<noteq> intattr_addr c j"
    "intie_addr c i \<noteq> intprio_addr c j"
    "intattr_addr c i \<noteq> intip_addr c j"
    "intattr_addr c i \<noteq> intie_addr c j"
    "intattr_addr c i \<noteq> intprio_addr c j"
    "intprio_addr c i \<noteq> intip_addr c j"
    "intprio_addr c i \<noteq> intie_addr c j"
    "intprio_addr c i \<noteq> intattr_addr c j"
    "intip_addr c i \<noteq> mithreshold_addr c 0"
    "intie_addr c i \<noteq> mithreshold_addr c 0"
    "intattr_addr c i \<noteq> mithreshold_addr c 0"
    "intprio_addr c i \<noteq> mithreshold_addr c 0"
proof -
  have i: "unat i < 1024" and j: "unat j < 1024"
    using assms by (simp_all add: small_irq)
  show "(intip_addr c i = intip_addr c j) = (i = j)"
    "(intie_addr c i = intie_addr c j) = (i = j)"
    "(intattr_addr c i = intattr_addr c j) = (i = j)"
    "(intprio_addr c i = intprio_addr c j) = (i = j)"
    by (simp_all add: clic_addrs)
  show "intip_addr c i \<noteq> intie_addr c j"
    "intip_addr c i \<noteq> intattr_addr c j"
    "intip_addr c i \<noteq> intprio_addr c j"
    "intie_addr c i \<noteq> intip_addr c j"
    "intie_addr c i \<noteq> intattr_addr c j"
    "intie_addr c i \<noteq> intprio_addr c j"
    "intattr_addr c i \<noteq> intip_addr c j"
    "intattr_addr c i \<noteq> intie_addr c j"
    "intattr_addr c i \<noteq> intprio_addr c j"
    "intprio_addr c i \<noteq> intip_addr c j"
    "intprio_addr c i \<noteq> intie_addr c j"
    "intprio_addr c i \<noteq> intattr_addr c j"
    unfolding clic_addrs by (rule block_addr_neq; simp add: clic_offsets i j)+
  show "intip_addr c i \<noteq> mithreshold_addr c 0"
    "intie_addr c i \<noteq> mithreshold_addr c 0"
    "intattr_addr c i \<noteq> mithreshold_addr c 0"
    "intprio_addr c i \<noteq> mithreshold_addr c 0"
    unfolding clic_addrs by (rule block_addr_neq; simp add: clic_offsets i)+
qed

lemma demo_cfg_ok: "cfg_ok demo_cfg"
  by (simp add: cfg_ok_def demo_cfg_def)

lemma zero_state_ok: "state_ok demo_cfg zero_state"
  by (simp add: state_ok_def demo_cfg_def zero_state_def)

section \<open>The handler and the initialisation loops\<close>

lemma handler_valid:
  assumes "state_ok c s" "valid_irq c irq"
  shows "clic_interrupt_handler c irq priority s =
     Inr (clic_clear_pending c irq
       (s\<lparr>clic_interrupt_count :=
             (clic_interrupt_count s)[unat irq := clic_interrupt_count s ! unat irq + 1],
          clic_last_interrupt_id := irq,
          clic_last_interrupt_priority := priority,
          clic_interrupt_cycles := clic_interrupt_cycles s + 1\<rparr>))"
  using assms by (simp add: clic_interrupt_handler_def state_ok_def valid_irq_def)

lemma handler_invalid:
  assumes "state_ok c s" "\<not> valid_irq c irq"
  shows "clic_interrupt_handler c irq priority s = Inl ArrayOutOfBounds"
  using assms by (simp add: clic_interrupt_handler_def state_ok_def valid_irq_def)


lemma clear_counts_loop_fields:
  "mem (clear_counts_loop c i s) = mem s \<and>
   length (clic_interrupt_count (clear_counts_loop c i s)) = length (clic_interrupt_count s)"
proof (induction c i s rule: clear_counts_loop.induct)
  case (1 c i s)
  show ?case
  proof (cases "i < CONFIG_CPU_INTERRUPTS c")
    case True
    with "1.IH" show ?thesis
      by (subst (1 2) clear_counts_loop.simps) simp
  next
    case False
    then show ?thesis
      by (subst (1 2) clear_counts_loop.simps) simp
  qed
qed

lemma clear_counts_loop_nth:
  "j < length (clic_interrupt_count s) \<Longrightarrow>
   clic_interrupt_count (clear_counts_loop c i s) ! j =
     (if i \<le> j \<and> j < CONFIG_CPU_INTERRUPTS c then 0 else clic_interrupt_count s ! j)"
proof (induction c i s rule: clear_counts_loop.induct)
  case (1 c i s)
  show ?case
  proof (cases "i < CONFIG_CPU_INTERRUPTS c")
    case True
    with "1.IH" "1.prems" show ?thesis
      by (subst clear_counts_loop.simps) (auto simp: nth_list_update)
  next
    case False
    then show ?thesis
      by (subst clear_counts_loop.simps) auto
  qed
qed

lemma init_written_step:
  assumes that: "i < CONFIG_CPU_INTERRUPTS c"
  shows "init_written c i a \<longleftrightarrow>
     a = intie_addr c (of_nat i) \<or> a = intip_addr c (of_nat i) \<or> init_written c (Suc i) a"
proof
  assume "init_written c i a"
  then obtain k where k: "i \<le> k" "k < CONFIG_CPU_INTERRUPTS c"
      "a = intie_addr c (of_nat k) \<or> a = intip_addr c (of_nat k)"
    unfolding init_written_def by blast
  show "a = intie_addr c (of_nat i) \<or> a = intip_addr c (of_nat i) \<or> init_written c (Suc i) a"
  proof (cases "k = i")
    case True
    with k(3) show ?thesis by blast
  next
    case False
    with k(1) have "Suc i \<le> k" by simp
    with k(2,3) have "init_written c (Suc i) a"
      unfolding init_written_def by blast
    then show ?thesis by blast
  qed
next
  assume r: "a = intie_addr c (of_nat i) \<or> a = intip_addr c (of_nat i) \<or> init_written c (Suc i) a"
  show "init_written c i a"
  proof (cases "init_written c (Suc i) a")
    case True
    then obtain k where "Suc i \<le> k" "k < CONFIG_CPU_INTERRUPTS c"
        "a = intie_addr c (of_nat k) \<or> a = intip_addr c (of_nat k)"
      unfolding init_written_def by blast
    then have "i \<le> k \<and> k < CONFIG_CPU_INTERRUPTS c \<and>
        (a = intie_addr c (of_nat k) \<or> a = intip_addr c (of_nat k))"
      by simp
    then show ?thesis
      unfolding init_written_def by blast
  next
    case False
    with r have "i \<le> i \<and> i < CONFIG_CPU_INTERRUPTS c \<and>
        (a = intie_addr c (of_nat i) \<or> a = intip_addr c (of_nat i))"
      using that by simp
    then show ?thesis
      unfolding init_written_def by blast
  qed
qed

lemma init_written_done:
  "\<not> i < CONFIG_CPU_INTERRUPTS c \<Longrightarrow> \<not> init_written c i a"
  unfolding init_written_def by auto

lemma disable_all_loop_mem:
  "mem (disable_all_loop c i s) a = (if init_written c i a then 0 else mem s a)"
proof (induction c i s rule: disable_all_loop.induct)
  case (1 c i s)
  show ?case
  proof (cases "i < CONFIG_CPU_INTERRUPTS c")
    case True
    with "1.IH" show ?thesis
      by (subst disable_all_loop.simps)
        (simp add: init_written_step [OF True] clic_ops clic_regs)
  next
    case False
    then show ?thesis
      by (subst disable_all_loop.simps) (simp add: init_written_done)
  qed
qed

lemma disable_all_loop_rest:
  "(disable_all_loop c i s)\<lparr>mem := mem s\<rparr> = s"
proof (induction c i s rule: disable_all_loop.induct)
  case (1 c i s)
  show ?case
  proof (cases "i < CONFIG_CPU_INTERRUPTS c")
    case True
    let ?t = "clic_clear_pending c (of_nat i) (clic_disable_interrupt c (of_nat i) s)"
    have "(disable_all_loop c (Suc i) ?t)\<lparr>mem := mem ?t\<rparr> = ?t"
      using "1.IH" True by simp
    then have "(disable_all_loop c (Suc i) ?t)\<lparr>mem := mem ?t\<rparr>\<lparr>mem := mem s\<rparr> = ?t\<lparr>mem := mem s\<rparr>"
      by simp
    then have "(disable_all_loop c (Suc i) ?t)\<lparr>mem := mem s\<rparr> = s"
      by (simp add: clic_ops clic_regs)
    with True show ?thesis
      by (subst disable_all_loop.simps) simp
  next
    case False
    then show ?thesis
      by (subst disable_all_loop.simps) simp
  qed
qed

lemma clic_init_mem:
  "mem (clic_init c s) a =
     (if a = mithreshold_addr c 0 \<or> init_written c 0 a then 0 else mem s a)"
  by (simp add: clic_init_def Let_def irq_setie_def clic_set_mithreshold_def
      disable_all_loop_mem clear_counts_loop_fields)

lemma clic_init_count:
  "clic_interrupt_count (clic_init c s) = clic_interrupt_count (clear_counts_loop c 0 s)"
proof -
  have "clic_interrupt_count ((disable_all_loop c 0 (clear_counts_loop c 0 s))\<lparr>mem := mem (clear_counts_loop c 0 s)\<rparr>)
      = clic_interrupt_count (clear_counts_loop c 0 s)"
    by (simp only: disable_all_loop_rest)
  then show ?thesis
    by (simp add: clic_init_def Let_def irq_setie_def clic_set_mithreshold_def)
qed

lemma valid_of_nat: "cfg_ok c \<Longrightarrow> k < CONFIG_CPU_INTERRUPTS c \<Longrightarrow> valid_irq c (of_nat k)"
  by (simp add: cfg_ok_def valid_irq_def unat_of_nat)

lemma init_written_valid:
  "valid_irq c irq \<Longrightarrow> init_written c 0 (intie_addr c irq) \<and> init_written c 0 (intip_addr c irq)"
proof -
  assume "valid_irq c irq"
  then have "0 \<le> unat irq \<and> unat irq < CONFIG_CPU_INTERRUPTS c"
    by (simp add: valid_irq_def)
  moreover have "(of_nat (unat irq) :: 32 word) = irq"
    by simp
  ultimately show ?thesis
    unfolding init_written_def by metis
qed

lemma init_not_written:
  assumes "cfg_ok c" "valid_irq c irq"
  shows "\<not> init_written c 0 (intprio_addr c irq)" "\<not> init_written c 0 (intattr_addr c irq)"
  using line_addrs_distinct [OF assms(1) assms(2) valid_of_nat [OF assms(1)]]
  unfolding init_written_def by auto

lemma clic_init_kept:
  assumes "cfg_ok c" "valid_irq c irq"
  shows "clic_get_intprio c irq (clic_init c s) = clic_get_intprio c irq s"
    "clic_get_intattr c irq (clic_init c s) = clic_get_intattr c irq s"
  using init_not_written [OF assms] line_addrs_distinct [OF assms(1) assms(2) assms(2)]
  by (simp_all add: clic_get_intprio_def clic_get_intattr_def clic_init_mem)


section \<open>The latency loops\<close>

lemma samples_append: "samples (xs @ ys) = samples xs @ samples ys"
  by (induction xs rule: samples.induct) simp_all

lemma sum_samples_Cons:
  "sum_list (samples (r # rs)) = sum_list (samples [r]) + sum_list (samples rs)"
  by (cases r) simp_all

lemma unat_cycles_succ:
  fixes cycles :: "32 word"
  assumes "cycles < 10000"
  shows "unat (cycles + 1) = Suc (unat cycles)"
proof -
  have "unat cycles < 10000"
    using assms by (simp add: word_less_nat_alt)
  then have "unat cycles + unat (1 :: 32 word) < 2 ^ 32"
    by simp
  then show ?thesis
    using unat_add_lem [of cycles 1] by simp
qed

lemma wait_step:
  "obs (unat cycles) = 0 \<Longrightarrow> cycles < 10000 \<Longrightarrow>
   wait_for_service obs cycles = wait_for_service obs (cycles + 1)"
  by (subst wait_for_service.simps) simp

lemma wait_stop:
  "\<not> (obs (unat cycles) = 0 \<and> cycles < 10000) \<Longrightarrow> wait_for_service obs cycles = cycles"
  by (subst wait_for_service.simps) (simp only: if_False)

lemma cycles_succ_le:
  fixes cycles :: "32 word"
  assumes "cycles < 10000"
  shows "cycles + 1 \<le> 10000"
proof -
  have "unat (cycles + 1) \<le> 10000"
    using assms unat_cycles_succ [OF assms] by (simp add: word_less_nat_alt)
  then show ?thesis
    by (simp add: word_le_nat_alt)
qed

lemma wait_for_service_timeout:
  "\<forall>k \<le> 10000. obs k = 0 \<Longrightarrow> cycles \<le> 10000 \<Longrightarrow> wait_for_service obs cycles = 10000"
proof (induction obs cycles rule: wait_for_service.induct)
  case (1 obs cycles)
  show ?case
  proof (cases "cycles < 10000")
    case True
    then have "unat cycles \<le> 10000"
      by (simp add: word_less_nat_alt)
    with "1.prems"(1) have z: "obs (unat cycles) = 0"
      by blast
    have "wait_for_service obs (cycles + 1) = 10000"
      using "1.IH" z True "1.prems"(1) cycles_succ_le [OF True] by blast
    then show ?thesis
      by (simp add: wait_step [of obs cycles, OF z True])
  next
    case False
    with "1.prems"(2) have "cycles = 10000"
      by simp
    moreover have "wait_for_service obs cycles = cycles"
      using False by (intro wait_stop) simp
    ultimately show ?thesis by simp
  qed
qed

lemma latency_trial_timeout:
  assumes "\<forall>k \<le> 10001. obs k = 0"
  shows "latency_trial obs total_latency = (total_latency, Inl Timeout)"
proof -
  have "\<forall>k \<le> 10000. obs k = 0"
    using assms by simp
  then have "wait_for_service obs 0 = 10000"
    by (intro wait_for_service_timeout) simp_all
  moreover have "obs 10001 = 0"
    using assms by simp
  ultimately show ?thesis
    by (simp add: latency_trial_def)
qed

lemma latency_trial_report:
  "snd (latency_trial obs total_latency) = snd (latency_trial obs 0)"
  by (simp add: latency_trial_def Let_def)

lemma latency_trial_total:
  "fst (latency_trial obs total_latency) =
     total_latency + sum_list (samples [snd (latency_trial obs 0)])"
  by (simp add: latency_trial_def Let_def)

lemma latency_loop_eq:
  "latency_loop obs i total_latency reports =
     (total_latency + sum_list (samples (map (\<lambda>j. snd (latency_trial (obs j) 0)) [i..<iterations])),
      reports @ map (\<lambda>j. snd (latency_trial (obs j) 0)) [i..<iterations])"
proof (induction obs i total_latency reports rule: latency_loop.induct)
  case (1 obs i total_latency reports)
  show ?case
  proof (cases "i < iterations")
    case True
    obtain total' r where tr: "latency_trial (obs i) total_latency = (total', r)"
      by (cases "latency_trial (obs i) total_latency")
    have r: "r = snd (latency_trial (obs i) 0)"
      using latency_trial_report [of "obs i" total_latency] tr by simp
    have t: "total' = total_latency + sum_list (samples [r])"
      using latency_trial_total [of "obs i" total_latency] tr r by simp
    have "latency_loop obs i total_latency reports = latency_loop obs (Suc i) total' (reports @ [r])"
      using True tr by (subst latency_loop.simps) simp
    also have "\<dots> =
      (total' + sum_list (samples (map (\<lambda>j. snd (latency_trial (obs j) 0)) [Suc i..<iterations])),
       (reports @ [r]) @ map (\<lambda>j. snd (latency_trial (obs j) 0)) [Suc i..<iterations])"
      using "1.IH" [OF True tr [symmetric]] .
    finally have e: "latency_loop obs i total_latency reports =
      (total' + sum_list (samples (map (\<lambda>j. snd (latency_trial (obs j) 0)) [Suc i..<iterations])),
       (reports @ [r]) @ map (\<lambda>j. snd (latency_trial (obs j) 0)) [Suc i..<iterations])" .
    have u: "[i..<iterations] = i # [Suc i..<iterations]"
      using True by (rule upt_conv_Cons)
    show ?thesis
      unfolding e u t
      by (simp add: r [symmetric] add.assoc
          sum_samples_Cons [of r "map (\<lambda>j. snd (latency_trial (obs j) 0)) [Suc i..<iterations]"])
  next
    case False
    then show ?thesis
      by (subst latency_loop.simps) simp
  qed
qed


lemma latency_trial_timeout_iff:
  "(latency_trial obs total_latency = (total_latency, Inl Timeout))
     = (obs (unat (wait_for_service obs 0) + 1) = 0)"
  by (simp add: latency_trial_def Let_def word_greater_zero_iff)

lemma latency_trial_serviced:
  "obs (unat (wait_for_service obs 0) + 1) \<noteq> 0 \<Longrightarrow>
   latency_trial obs total_latency =
     (total_latency + wait_for_service obs 0, Inr (wait_for_service obs 0))"
  by (simp add: latency_trial_def Let_def word_greater_zero_iff)


lemma wait_late_obs: "wait_for_service late_obs 0 = 10000"
  by (rule wait_for_service_timeout) (simp_all add: late_obs_def)

lemma wait_serviced_at_once: "wait_for_service (\<lambda>k. 1) 0 = 0"
  by (rule wait_stop) simp


section \<open>The arbiter and the dispatch loop\<close>

lemma pick_cases:
  "pick c s i best = best \<or> (pick c s i best = Some i \<and> eligible c (of_nat i) s)"
  by (simp add: pick_def)

lemma fold_pick_sound:
  "fold (pick c s) xs best = Some i \<Longrightarrow>
   best = Some i \<or> (i \<in> set xs \<and> eligible c (of_nat i) s)"
proof (induction xs arbitrary: best)
  case Nil
  then show ?case by simp
next
  case (Cons x xs)
  from Cons.prems have "fold (pick c s) xs (pick c s x best) = Some i"
    by simp
  from Cons.IH [OF this] pick_cases [of c s x best] show ?case
    by auto
qed

lemma pick_keeps_some: "best \<noteq> None \<Longrightarrow> pick c s i best \<noteq> None"
  by (auto simp: pick_def)

lemma fold_pick_keeps_some: "best \<noteq> None \<Longrightarrow> fold (pick c s) xs best \<noteq> None"
proof (induction xs arbitrary: best)
  case Nil
  then show ?case by simp
next
  case (Cons x xs)
  from Cons.prems have "pick c s x best \<noteq> None"
    by (rule pick_keeps_some)
  from Cons.IH [OF this] show ?case
    by simp
qed

lemma pick_eligible: "eligible c (of_nat i) s \<Longrightarrow> pick c s i best \<noteq> None"
  by (cases best) (auto simp: pick_def)

lemma fold_pick_finds:
  "i \<in> set xs \<Longrightarrow> eligible c (of_nat i) s \<Longrightarrow> fold (pick c s) xs best \<noteq> None"
proof (induction xs arbitrary: best)
  case Nil
  then show ?case by simp
next
  case (Cons x xs)
  show ?case
  proof (cases "x = i")
    case True
    with Cons.prems(2) have "pick c s x best \<noteq> None"
      by (simp add: pick_eligible)
    then show ?thesis
      by (simp add: fold_pick_keeps_some)
  next
    case False
    with Cons.prems have "i \<in> set xs" by simp
    from Cons.IH [OF this Cons.prems(2)] show ?thesis by simp
  qed
qed

lemma select_next_Some:
  assumes "cfg_ok c" and "select_next c s = Some irq"
  shows "valid_irq c irq" and "eligible c irq s"
proof -
  from assms(2) obtain i where f: "fold (pick c s) [0..<CONFIG_CPU_INTERRUPTS c] None = Some i"
    and irq: "irq = of_nat i"
    by (auto simp: select_next_def)
  from fold_pick_sound [OF f] have i: "i < CONFIG_CPU_INTERRUPTS c" and e: "eligible c (of_nat i) s"
    by auto
  show "valid_irq c irq"
    using valid_of_nat [OF assms(1) i] irq by simp
  show "eligible c irq s"
    using e irq by simp
qed

lemma select_next_finds:
  assumes "valid_irq c irq" and "eligible c irq s"
  shows "\<exists>j. select_next c s = Some j"
proof -
  have "unat irq \<in> set [0..<CONFIG_CPU_INTERRUPTS c]"
    using assms(1) by (simp add: valid_irq_def)
  moreover have "eligible c (of_nat (unat irq)) s"
    using assms(2) by simp
  ultimately have "fold (pick c s) [0..<CONFIG_CPU_INTERRUPTS c] None \<noteq> None"
    by (rule fold_pick_finds)
  then show ?thesis
    by (auto simp: select_next_def)
qed

lemma service_valid:
  assumes "state_ok c s" and "valid_irq c irq"
  shows "service c irq s = clic_interrupt_handler c irq (ucast (clic_get_intprio c irq s)) s"
    and "\<exists>s'. service c irq s = Inr s' \<and> state_ok c s' \<and>
           mem s' = (mem s)(intip_addr c irq := 0) \<and>
           clic_interrupt_count s' =
             (clic_interrupt_count s)[unat irq := clic_interrupt_count s ! unat irq + 1]"
  using assms
  by (simp_all add: service_def handler_valid clic_clear_pending_def clic_set_intip_def
      state_ok_def)

lemma poll_selected:
  assumes "cfg_ok c" and "state_ok c s" and "select_next c s = Some j"
  shows "\<exists>s'. dispatch_poll c s = Inr s' \<and> state_ok c s' \<and>
           mem s' = (mem s)(intip_addr c j := 0) \<and>
           clic_interrupt_count s' =
             (clic_interrupt_count s)[unat j := clic_interrupt_count s ! unat j + 1]"
  using service_valid(2) [OF assms(2) select_next_Some(1) [OF assms(1,3)]] assms(3)
  by (simp add: dispatch_poll_def)

lemma eligible_after_clear:
  assumes "cfg_ok c" and "valid_irq c j" and "valid_irq c k"
    and "mem s' = (mem s)(intip_addr c j := 0)"
  shows "eligible c k s' \<longleftrightarrow> eligible c k s \<and> k \<noteq> j"
proof -
  note d = line_addrs_distinct [OF assms(1) assms(3) assms(2)]
  have t: "mithreshold_addr c 0 \<noteq> intip_addr c j"
    using line_addrs_distinct(17) [OF assms(1) assms(2) assms(2)] by simp
  show ?thesis
    using d t assms(4)
    by (auto simp: eligible_def is_enabled_def clic_is_pending_def clic_regs)
qed

lemma not_pending_not_serviced:
  assumes "cfg_ok c" and "valid_irq c irq"
  shows "state_ok c s \<Longrightarrow> \<not> clic_is_pending c irq s \<Longrightarrow>
         \<exists>s'. dispatch_polls c m s = Inr s' \<and>
              clic_interrupt_count s' ! unat irq = clic_interrupt_count s ! unat irq"
proof (induction m arbitrary: s)
  case 0
  show ?case by simp
next
  case (Suc m)
  show ?case
  proof (cases "select_next c s")
    case None
    then have "dispatch_poll c s = Inr s"
      by (simp add: dispatch_poll_def)
    with Suc.IH [OF Suc.prems] show ?thesis
      by simp
  next
    case (Some j)
    note vj = select_next_Some [OF assms(1) Some]
    from vj(2) Suc.prems(2) have ne: "j \<noteq> irq"
      by (auto simp: eligible_def)
    from poll_selected [OF assms(1) Suc.prems(1) Some]
    obtain s1 where s1: "dispatch_poll c s = Inr s1" "state_ok c s1"
        "mem s1 = (mem s)(intip_addr c j := 0)"
        "clic_interrupt_count s1 =
           (clic_interrupt_count s)[unat j := clic_interrupt_count s ! unat j + 1]"
      by blast
    have np: "\<not> clic_is_pending c irq s1"
      using Suc.prems(2) s1(3) by (simp add: clic_is_pending_def clic_get_intip_def)
    have "unat j \<noteq> unat irq"
      using ne by (simp add: word_unat_eq_iff)
    then have cnt: "clic_interrupt_count s1 ! unat irq = clic_interrupt_count s ! unat irq"
      using s1(4) by simp
    from Suc.IH [OF s1(2) np] cnt s1(1) show ?thesis
      by simp
  qed
qed

lemma not_eligible_not_serviced:
  assumes "cfg_ok c" and "valid_irq c irq"
  shows "state_ok c s \<Longrightarrow> \<not> eligible c irq s \<Longrightarrow>
         \<exists>s'. dispatch_polls c m s = Inr s' \<and>
              clic_interrupt_count s' ! unat irq = clic_interrupt_count s ! unat irq"
proof (induction m arbitrary: s)
  case 0
  show ?case by simp
next
  case (Suc m)
  show ?case
  proof (cases "select_next c s")
    case None
    then have "dispatch_poll c s = Inr s"
      by (simp add: dispatch_poll_def)
    with Suc.IH [OF Suc.prems] show ?thesis
      by simp
  next
    case (Some j)
    note vj = select_next_Some [OF assms(1) Some]
    from vj(2) Suc.prems(2) have ne: "j \<noteq> irq"
      by auto
    from poll_selected [OF assms(1) Suc.prems(1) Some]
    obtain s1 where s1: "dispatch_poll c s = Inr s1" "state_ok c s1"
        "mem s1 = (mem s)(intip_addr c j := 0)"
        "clic_interrupt_count s1 =
           (clic_interrupt_count s)[unat j := clic_interrupt_count s ! unat j + 1]"
      by blast
    have ne1: "\<not> eligible c irq s1"
      using eligible_after_clear [OF assms(1) vj(1) assms(2) s1(3)] Suc.prems(2) by simp
    have "unat j \<noteq> unat irq"
      using ne by (simp add: word_unat_eq_iff)
    then have cnt: "clic_interrupt_count s1 ! unat irq = clic_interrupt_count s ! unat irq"
      using s1(4) by simp
    from Suc.IH [OF s1(2) ne1] cnt s1(1) show ?thesis
      by simp
  qed
qed


lemma eligible_set_after_poll:
  assumes "cfg_ok c" and "valid_irq c j" and "mem s' = (mem s)(intip_addr c j := 0)"
  shows "{k. k < CONFIG_CPU_INTERRUPTS c \<and> eligible c (of_nat k) s'} =
         {k. k < CONFIG_CPU_INTERRUPTS c \<and> eligible c (of_nat k) s} - {unat j}"
proof -
  have "eligible c (of_nat k) s' \<longleftrightarrow> eligible c (of_nat k) s \<and> k \<noteq> unat j"
    if k: "k < CONFIG_CPU_INTERRUPTS c" for k
  proof -
    have "unat (of_nat k :: 32 word) = k"
      using k assms(1) by (simp add: cfg_ok_def unat_of_nat)
    then have "(of_nat k = j) = (k = unat j)"
      by (auto simp: word_unat_eq_iff)
    then show ?thesis
      using eligible_after_clear [OF assms(1,2) valid_of_nat [OF assms(1) k] assms(3)]
      by simp
  qed
  then show ?thesis
    by auto
qed

lemma serviced_once:
  assumes "cfg_ok c" and "valid_irq c irq"
  shows "state_ok c s \<Longrightarrow> eligible c irq s \<Longrightarrow>
         card {k. k < CONFIG_CPU_INTERRUPTS c \<and> eligible c (of_nat k) s} = n \<Longrightarrow>
         \<exists>k<n. \<forall>m. \<exists>s'. dispatch_polls c m s = Inr s' \<and>
           clic_interrupt_count s' ! unat irq =
             (if m \<le> k then clic_interrupt_count s ! unat irq
              else clic_interrupt_count s ! unat irq + 1)"
proof (induction n arbitrary: s)
  case 0
  have "finite {k. k < CONFIG_CPU_INTERRUPTS c \<and> eligible c (of_nat k) s}"
    by simp
  with "0.prems"(3) have "{k. k < CONFIG_CPU_INTERRUPTS c \<and> eligible c (of_nat k) s} = {}"
    by simp
  moreover have "unat irq \<in> {k. k < CONFIG_CPU_INTERRUPTS c \<and> eligible c (of_nat k) s}"
    using assms(2) "0.prems"(2) by (simp add: valid_irq_def)
  ultimately show ?case
    by blast
next
  case (Suc n)
  let ?E = "\<lambda>s. {k. k < CONFIG_CPU_INTERRUPTS c \<and> eligible c (of_nat k) s}"
  let ?cnt = "\<lambda>s. clic_interrupt_count s ! unat irq"
  from select_next_finds [OF assms(2) Suc.prems(2)]
  obtain j where j: "select_next c s = Some j"
    by blast
  note vj = select_next_Some [OF assms(1) j]
  from poll_selected [OF assms(1) Suc.prems(1) j]
  obtain s1 where s1: "dispatch_poll c s = Inr s1" "state_ok c s1"
      "mem s1 = (mem s)(intip_addr c j := 0)"
      "clic_interrupt_count s1 =
         (clic_interrupt_count s)[unat j := clic_interrupt_count s ! unat j + 1]"
    by blast
  have step: "dispatch_polls c (Suc m) s = dispatch_polls c m s1" for m
    using s1(1) by simp
  have len: "unat irq < length (clic_interrupt_count s)"
    using assms(2) Suc.prems(1) by (simp add: valid_irq_def state_ok_def)
  show ?case
  proof (cases "j = irq")
    case True
    have np: "\<not> clic_is_pending c irq s1"
      using s1(3) True by (simp add: clic_is_pending_def clic_get_intip_def)
    have c1: "?cnt s1 = ?cnt s + 1"
      using s1(4) True len by simp
    have "\<exists>s'. dispatch_polls c m s = Inr s' \<and>
            ?cnt s' = (if m \<le> 0 then ?cnt s else ?cnt s + 1)" for m
    proof (cases m)
      case 0
      then show ?thesis by simp
    next
      case (Suc m')
      from not_pending_not_serviced [OF assms s1(2) np, of m'] c1 show ?thesis
        unfolding Suc step by simp
    qed
    then show ?thesis
      by blast
  next
    case False
    have e1: "eligible c irq s1"
      using eligible_after_clear [OF assms(1) vj(1) assms(2) s1(3)] Suc.prems(2) False
      by simp
    have "unat j \<in> ?E s"
      using vj by (simp add: valid_irq_def)
    moreover have "finite (?E s)"
      by simp
    ultimately have "card (?E s - {unat j}) = n"
      using Suc.prems(3) by simp
    then have card1: "card (?E s1) = n"
      by (simp add: eligible_set_after_poll [OF assms(1) vj(1) s1(3)])
    from Suc.IH [OF s1(2) e1 card1]
    obtain k where k: "k < n"
      and all: "\<And>m. \<exists>s'. dispatch_polls c m s1 = Inr s' \<and>
           ?cnt s' = (if m \<le> k then ?cnt s1 else ?cnt s1 + 1)"
      by blast
    have "unat j \<noteq> unat irq"
      using False by (simp add: word_unat_eq_iff)
    then have c1: "?cnt s1 = ?cnt s"
      using s1(4) by simp
    have "\<exists>s'. dispatch_polls c m s = Inr s' \<and>
            ?cnt s' = (if m \<le> Suc k then ?cnt s else ?cnt s + 1)" for m
    proof (cases m)
      case 0
      then show ?thesis by simp
    next
      case (Suc m')
      from all [of m'] show ?thesis
        unfolding Suc step c1 by simp
    qed
    with k show ?thesis
      by (intro exI [of _ "Suc k"]) simp
  qed
qed

lemma eligible_card_le:
  "card {k. k < CONFIG_CPU_INTERRUPTS c \<and> eligible c (of_nat k) s} \<le> CONFIG_CPU_INTERRUPTS c"
proof -
  have "{k. k < CONFIG_CPU_INTERRUPTS c \<and> eligible c (of_nat k) s} \<subseteq> {..<CONFIG_CPU_INTERRUPTS c}"
    by auto
  then have "card {k. k < CONFIG_CPU_INTERRUPTS c \<and> eligible c (of_nat k) s}
      \<le> card {..<CONFIG_CPU_INTERRUPTS c}"
    by (intro card_mono) simp_all
  then show ?thesis by simp
qed


text \<open>A priority byte and its value as \<open>unsigned int\<close> compare alike with 100.\<close>

lemma ucast_prio_less: "((ucast (p :: 8 word) :: 32 word) < 100) = (p < 100)"
proof -
  have "unat p < 2 ^ 8"
    using unsigned_less [of p] by simp
  then have "unat (ucast p :: 32 word) = unat p"
    by (simp add: unsigned_ucast_eq take_bit_nat_eq_self)
  then show ?thesis
    by (simp add: word_less_nat_alt)
qed

section \<open>Pending bit: set, clear, read\<close>

text \<open>
  Claim C6. For every valid line id and any starting state, \<open>clic_is_pending\<close>
  returns true immediately after \<open>clic_set_pending\<close> of that line and false
  immediately after \<open>clic_clear_pending\<close> of that line.
\<close>

theorem is_pending_after_set_and_after_clear:
  assumes "valid_irq c irq"
  shows "clic_is_pending c irq (clic_set_pending c irq s) \<and>
         \<not> clic_is_pending c irq (clic_clear_pending c irq s)"
  by (simp add: clic_is_pending_def clic_set_pending_def clic_clear_pending_def
      clic_get_intip_def clic_set_intip_def)

theorem is_pending_after_set_and_after_clear_witness:
  "valid_irq demo_cfg 20 \<and>
   clic_is_pending demo_cfg 20 (clic_set_pending demo_cfg 20 zero_state) \<and>
   \<not> clic_is_pending demo_cfg 20
        (clic_clear_pending demo_cfg 20 (clic_set_pending demo_cfg 20 zero_state))"
proof -
  have v: "valid_irq demo_cfg 20"
    by (simp add: valid_irq_def demo_cfg_def)
  show ?thesis
    using v is_pending_after_set_and_after_clear [OF v, of zero_state]
      is_pending_after_set_and_after_clear [OF v, of "clic_set_pending demo_cfg 20 zero_state"]
    by simp
qed

section \<open>Idempotence of disable and clear-pending\<close>

text \<open>
  Claim C7. For every valid line id, \<open>clic_disable_interrupt\<close> on a line that is
  already disabled, and \<open>clic_clear_pending\<close> on a line whose pending bit is
  already clear, each leave the whole state as it was, and the call completes without
  an error.
\<close>

theorem disable_and_clear_pending_idempotent:
  assumes "valid_irq c irq"
  shows "(\<not> is_enabled c irq s \<longrightarrow>
            clic_disable_interrupt c irq s = s \<and>
            call_void (clic_disable_interrupt c irq) s = Inr s) \<and>
         (\<not> clic_is_pending c irq s \<longrightarrow>
            clic_clear_pending c irq s = s \<and>
            call_void (clic_clear_pending c irq) s = Inr s)"
  by (simp add: clic_ops clic_regs call_void_def fun_upd_idem)

theorem disable_and_clear_pending_idempotent_witness:
  "valid_irq demo_cfg 20 \<and>
   \<not> is_enabled demo_cfg 20 zero_state \<and>
   clic_disable_interrupt demo_cfg 20 zero_state = zero_state \<and>
   call_void (clic_disable_interrupt demo_cfg 20) zero_state = Inr zero_state \<and>
   \<not> clic_is_pending demo_cfg 20 zero_state \<and>
   clic_clear_pending demo_cfg 20 zero_state = zero_state \<and>
   call_void (clic_clear_pending demo_cfg 20) zero_state = Inr zero_state"
proof -
  have v: "valid_irq demo_cfg 20"
    by (simp add: valid_irq_def demo_cfg_def)
  have e: "\<not> is_enabled demo_cfg 20 zero_state"
    by (simp add: is_enabled_def clic_get_intie_def zero_state_def)
  have p: "\<not> clic_is_pending demo_cfg 20 zero_state"
    by (simp add: clic_is_pending_def clic_get_intip_def zero_state_def)
  show ?thesis
    using v e p disable_and_clear_pending_idempotent [OF v, of zero_state]
    by simp
qed

section \<open>Frame of configure and disable\<close>

text \<open>
  Claim C5. For every valid line id, \<open>clic_configure_interrupt\<close> changes only
  that line's priority, trigger mode and polarity: its enable and pending bytes and
  everything outside the register store stay as they were, and so do, when the lines
  fit the 0x400 bytes of a register block, the four registers of every other line and
  the threshold. \<open>clic_disable_interrupt\<close> clears the enable bit and leaves the
  pending bit as it was.
\<close>

theorem configure_and_disable_frame:
  assumes "valid_irq c irq"
  shows "(let s' = clic_configure_interrupt c irq priority edge_triggered positive_polarity s in
            is_enabled c irq s' = is_enabled c irq s \<and>
            clic_is_pending c irq s' = clic_is_pending c irq s \<and>
            clic_get_intie c irq s' = clic_get_intie c irq s \<and>
            clic_get_intip c irq s' = clic_get_intip c irq s \<and>
            clic_get_intprio c irq s' = priority \<and>
            is_edge_triggered c irq s' = edge_triggered \<and>
            is_positive_polarity c irq s' = positive_polarity \<and>
            s'\<lparr>mem := mem s\<rparr> = s \<and>
            (cfg_ok c \<longrightarrow>
               (\<forall>j. valid_irq c j \<and> j \<noteq> irq \<longrightarrow>
                  clic_get_intie c j s' = clic_get_intie c j s \<and>
                  clic_get_intip c j s' = clic_get_intip c j s \<and>
                  clic_get_intattr c j s' = clic_get_intattr c j s \<and>
                  clic_get_intprio c j s' = clic_get_intprio c j s) \<and>
               clic_get_mithreshold c 0 s' = clic_get_mithreshold c 0 s)) \<and>
         (let d = clic_disable_interrupt c irq s in
            \<not> is_enabled c irq d \<and>
            clic_is_pending c irq d = clic_is_pending c irq s \<and>
            clic_get_intip c irq d = clic_get_intip c irq s \<and>
            d\<lparr>mem := mem s\<rparr> = s)"
proof -
  let ?s' = "clic_configure_interrupt c irq priority edge_triggered positive_polarity s"
  have own: "clic_get_intie c irq ?s' = clic_get_intie c irq s"
      "clic_get_intip c irq ?s' = clic_get_intip c irq s"
    by (simp_all add: clic_configure_interrupt_def clic_regs Let_def same_line_addrs)
  have new: "clic_get_intprio c irq ?s' = priority"
      "is_edge_triggered c irq ?s' = edge_triggered"
      "is_positive_polarity c irq ?s' = positive_polarity"
    by (simp_all add: clic_configure_interrupt_def clic_regs Let_def same_line_addrs
        is_edge_triggered_def is_positive_polarity_def CLIC_ATTR_TRIG_MASK_def
        CLIC_ATTR_TRIG_EDGE_def CLIC_ATTR_POL_MASK_def CLIC_ATTR_POL_POS_def)
  have others: "clic_get_intie c j ?s' = clic_get_intie c j s \<and>
       clic_get_intip c j ?s' = clic_get_intip c j s \<and>
       clic_get_intattr c j ?s' = clic_get_intattr c j s \<and>
       clic_get_intprio c j ?s' = clic_get_intprio c j s"
    if "cfg_ok c" "valid_irq c j" "j \<noteq> irq" for j
    using that(3) line_addrs_distinct [OF that(1,2) assms]
    by (simp add: clic_configure_interrupt_def clic_regs Let_def)
  have thr: "clic_get_mithreshold c 0 ?s' = clic_get_mithreshold c 0 s" if "cfg_ok c"
    using line_addrs_distinct [OF that assms assms]
    by (simp add: clic_configure_interrupt_def clic_regs Let_def)
  have rest: "?s'\<lparr>mem := mem s\<rparr> = s"
    by (simp add: clic_configure_interrupt_def clic_regs Let_def)
  have dis: "\<not> is_enabled c irq (clic_disable_interrupt c irq s)"
    "clic_get_intip c irq (clic_disable_interrupt c irq s) = clic_get_intip c irq s"
    "(clic_disable_interrupt c irq s)\<lparr>mem := mem s\<rparr> = s"
    by (simp_all add: clic_ops clic_regs same_line_addrs)
  show ?thesis
    unfolding Let_def
    using own new others thr rest dis by (simp add: is_enabled_def clic_is_pending_def)
qed

theorem configure_and_disable_frame_witness:
  "cfg_ok demo_cfg \<and> valid_irq demo_cfg 20 \<and> valid_irq demo_cfg 3 \<and>
   is_enabled demo_cfg 20
     (clic_configure_interrupt demo_cfg 20 64 True True
        (clic_set_pending demo_cfg 20 (clic_enable_interrupt demo_cfg 20 zero_state))) \<and>
   clic_is_pending demo_cfg 20
     (clic_configure_interrupt demo_cfg 20 64 True True
        (clic_set_pending demo_cfg 20 (clic_enable_interrupt demo_cfg 20 zero_state))) \<and>
   clic_get_intprio demo_cfg 20
     (clic_configure_interrupt demo_cfg 20 64 True True
        (clic_set_pending demo_cfg 20 (clic_enable_interrupt demo_cfg 20 zero_state))) = 64 \<and>
   clic_get_intprio demo_cfg 3
     (clic_configure_interrupt demo_cfg 20 64 True True
        (clic_set_pending demo_cfg 20 (clic_enable_interrupt demo_cfg 20 zero_state))) = 0 \<and>
   \<not> is_enabled demo_cfg 20
     (clic_disable_interrupt demo_cfg 20
        (clic_set_pending demo_cfg 20 (clic_enable_interrupt demo_cfg 20 zero_state))) \<and>
   clic_is_pending demo_cfg 20
     (clic_disable_interrupt demo_cfg 20
        (clic_set_pending demo_cfg 20 (clic_enable_interrupt demo_cfg 20 zero_state)))"
proof -
  let ?s = "clic_set_pending demo_cfg 20 (clic_enable_interrupt demo_cfg 20 zero_state)"
  have v: "valid_irq demo_cfg 20" and w: "valid_irq demo_cfg 3"
    by (simp_all add: valid_irq_def demo_cfg_def)
  have e: "is_enabled demo_cfg 20 ?s" and p: "clic_is_pending demo_cfg 20 ?s"
    and q: "clic_get_intprio demo_cfg 3 ?s = 0"
    by (simp_all add: clic_ops clic_regs clic_addrs clic_offsets demo_cfg_def zero_state_def)
  show ?thesis
    using v w e p q demo_cfg_ok
      configure_and_disable_frame [OF v, of 64 True True ?s]
    by (simp add: Let_def)
qed

section \<open>The handler's instrumentation\<close>

text \<open>
  Claim C4. For every serviced pair of a valid id and a priority, the handler adds
  exactly one to the counter of that id (the counter is an \<open>unsigned int\<close>, so the
  addition is modulo \<open>2 ^ 32\<close>) and stores the id and the priority in
  \<open>clic_last_interrupt_id\<close> and \<open>clic_last_interrupt_priority\<close>.
\<close>

theorem handler_instrumentation:
  assumes "state_ok c s" and "valid_irq c irq"
  shows "\<exists>s'. clic_interrupt_handler c irq priority s = Inr s' \<and>
           clic_interrupt_count s' ! unat irq = clic_interrupt_count s ! unat irq + 1 \<and>
           unat (clic_interrupt_count s' ! unat irq) =
             (unat (clic_interrupt_count s ! unat irq) + 1) mod 2 ^ 32 \<and>
           clic_last_interrupt_id s' = irq \<and>
           clic_last_interrupt_priority s' = priority"
proof -
  have len: "unat irq < length (clic_interrupt_count s)"
    using assms by (simp add: state_ok_def valid_irq_def)
  show ?thesis
    unfolding handler_valid [OF assms]
    using len by (simp add: clic_clear_pending_def clic_set_intip_def unat_word_ariths)
qed

theorem handler_instrumentation_witness:
  "state_ok demo_cfg zero_state \<and> valid_irq demo_cfg 20 \<and>
   (\<exists>s'. clic_interrupt_handler demo_cfg 20 64 zero_state = Inr s' \<and>
      clic_interrupt_count s' ! 20 = 1 \<and>
      clic_last_interrupt_id s' = 20 \<and>
      clic_last_interrupt_priority s' = 64)"
proof -
  have v: "valid_irq demo_cfg 20"
    by (simp add: valid_irq_def demo_cfg_def)
  have z: "clic_interrupt_count zero_state ! 20 = 0"
    by (simp add: zero_state_def)
  show ?thesis
    using v z zero_state_ok handler_instrumentation [OF zero_state_ok v, of 64]
    by auto
qed


text \<open>
  Claim C9. The handler indexes and increments the counter array with its id before it
  compares the id with \<open>CONFIG_CPU_INTERRUPTS\<close>: whenever the index is within the
  array the counter of the id is incremented, whether or not the id is below
  \<open>CONFIG_CPU_INTERRUPTS\<close>, and the comparison decides only whether the pending
  byte is cleared. The array access faults exactly when the index is outside the array,
  which, the array having \<open>CONFIG_CPU_INTERRUPTS\<close> elements, is exactly for the ids
  that are not valid: nothing in the handler enforces that precondition.
\<close>

theorem handler_counter_access_unguarded:
  "(clic_interrupt_handler c irq priority s = Inl ArrayOutOfBounds)
     = (\<not> unat irq < length (clic_interrupt_count s)) \<and>
   (unat irq < length (clic_interrupt_count s) \<longrightarrow>
      (\<exists>s'. clic_interrupt_handler c irq priority s = Inr s' \<and>
         clic_interrupt_count s' =
           (clic_interrupt_count s)[unat irq := clic_interrupt_count s ! unat irq + 1] \<and>
         mem s' =
           (if unat irq < CONFIG_CPU_INTERRUPTS c then (mem s)(intip_addr c irq := 0)
            else mem s))) \<and>
   (state_ok c s \<longrightarrow>
      (clic_interrupt_handler c irq priority s = Inl ArrayOutOfBounds) = (\<not> valid_irq c irq))"
  by (simp add: clic_interrupt_handler_def Let_def clic_clear_pending_def clic_set_intip_def
      state_ok_def valid_irq_def)

theorem handler_counter_access_unguarded_witness:
  "state_ok demo_cfg zero_state \<and>
   \<not> valid_irq demo_cfg 32 \<and>
   clic_interrupt_handler demo_cfg 32 64 zero_state = Inl ArrayOutOfBounds \<and>
   valid_irq demo_cfg 31 \<and>
   (\<exists>s'. clic_interrupt_handler demo_cfg 31 64 (clic_set_pending demo_cfg 31 zero_state) = Inr s' \<and>
      clic_interrupt_count s' ! 31 = 1 \<and> \<not> clic_is_pending demo_cfg 31 s') \<and>
   \<not> state_ok demo_cfg long_counts_state \<and>
   \<not> valid_irq demo_cfg 35 \<and>
   (\<exists>s'. clic_interrupt_handler demo_cfg 35 64 long_counts_state = Inr s' \<and>
      clic_interrupt_count s' ! 35 = 1 \<and> clic_is_pending demo_cfg 35 s')"
proof -
  let ?p = "clic_set_pending demo_cfg 31 zero_state"
  have v: "valid_irq demo_cfg 31" and n: "\<not> valid_irq demo_cfg 32" "\<not> valid_irq demo_cfg 35"
    by (simp_all add: valid_irq_def demo_cfg_def)
  have nok: "\<not> state_ok demo_cfg long_counts_state"
    by (simp add: state_ok_def long_counts_state_def clic_set_pending_def clic_set_intip_def
        demo_cfg_def zero_state_def)
  have len: "length (clic_interrupt_count zero_state) = 32"
    "length (clic_interrupt_count ?p) = 32"
    "length (clic_interrupt_count long_counts_state) = 40"
    by (simp_all add: long_counts_state_def clic_set_pending_def clic_set_intip_def zero_state_def)
  have cnt: "clic_interrupt_count ?p = replicate 32 0"
    "clic_interrupt_count long_counts_state = replicate 40 0"
    by (simp_all add: long_counts_state_def clic_set_pending_def clic_set_intip_def zero_state_def)
  have u: "unat (32 :: 32 word) = 32" "unat (31 :: 32 word) = 31" "unat (35 :: 32 word) = 35"
    by simp_all
  have N: "CONFIG_CPU_INTERRUPTS demo_cfg = 32"
    by (simp add: demo_cfg_def)
  have pend: "mem long_counts_state (intip_addr demo_cfg 35) = 1"
    by (simp add: long_counts_state_def clic_set_pending_def clic_set_intip_def)
  note a = handler_counter_access_unguarded [of demo_cfg 32 64 zero_state, unfolded u len N]
  note b = handler_counter_access_unguarded [of demo_cfg 31 64 ?p, unfolded u len N cnt]
  note d = handler_counter_access_unguarded [of demo_cfg 35 64 long_counts_state,
      unfolded u len N cnt]
  from a have 1: "clic_interrupt_handler demo_cfg 32 64 zero_state = Inl ArrayOutOfBounds"
    by simp
  from b obtain s1 where s1: "clic_interrupt_handler demo_cfg 31 64 ?p = Inr s1"
      "clic_interrupt_count s1 = (replicate 32 0)[31 := replicate 32 0 ! 31 + 1]"
      "mem s1 = (mem ?p)(intip_addr demo_cfg 31 := 0)"
    by auto
  from d obtain s2 where s2: "clic_interrupt_handler demo_cfg 35 64 long_counts_state = Inr s2"
      "clic_interrupt_count s2 = (replicate 40 0)[35 := replicate 40 0 ! 35 + 1]"
      "mem s2 = mem long_counts_state"
    by auto
  have 2: "clic_interrupt_count s1 ! 31 = 1" "\<not> clic_is_pending demo_cfg 31 s1"
    using s1(2,3) by (simp_all add: clic_is_pending_def clic_get_intip_def)
  have 3: "clic_interrupt_count s2 ! 35 = 1" "clic_is_pending demo_cfg 35 s2"
    using s2(2,3) pend by (simp_all add: clic_is_pending_def clic_get_intip_def)
  show ?thesis
    using zero_state_ok v n nok 1 s1(1) 2 s2(1) 3 by blast
qed

section \<open>Initialisation\<close>

text \<open>
  Claim C3, as amended. After \<open>clic_init\<close>, every valid line is disabled and not
  pending, its counter is zero, and the threshold of hart 0 is 0. The priority register
  of a line is not written: when the lines fit the 0x400 bytes of a register block, it
  holds what it held before \<open>clic_init\<close>, which need not be 0.
\<close>

theorem clic_init_resets_lines:
  assumes "state_ok c s" and "valid_irq c irq"
  shows "\<not> is_enabled c irq (clic_init c s) \<and>
         \<not> clic_is_pending c irq (clic_init c s) \<and>
         clic_interrupt_count (clic_init c s) ! unat irq = 0 \<and>
         clic_get_mithreshold c 0 (clic_init c s) = 0 \<and>
         (cfg_ok c \<longrightarrow> clic_get_intprio c irq (clic_init c s) = clic_get_intprio c irq s)"
proof -
  have len: "unat irq < length (clic_interrupt_count s)"
    and lt: "unat irq < CONFIG_CPU_INTERRUPTS c"
    using assms by (simp_all add: state_ok_def valid_irq_def)
  have "clic_interrupt_count (clic_init c s) ! unat irq = 0"
    using lt by (simp add: clic_init_count clear_counts_loop_nth [OF len])
  moreover have "\<not> is_enabled c irq (clic_init c s)" "\<not> clic_is_pending c irq (clic_init c s)"
    using init_written_valid [OF assms(2)]
    by (simp_all add: is_enabled_def clic_is_pending_def clic_get_intie_def clic_get_intip_def
        clic_init_mem)
  moreover have "clic_get_mithreshold c 0 (clic_init c s) = 0"
    by (simp add: clic_get_mithreshold_def clic_init_mem)
  ultimately show ?thesis
    using clic_init_kept(1) [OF _ assms(2)] by simp
qed

theorem clic_init_resets_lines_witness:
  "cfg_ok demo_cfg \<and>
   state_ok demo_cfg (clic_set_intprio demo_cfg 2 200 zero_state) \<and>
   valid_irq demo_cfg 2 \<and>
   \<not> is_enabled demo_cfg 2 (clic_init demo_cfg (clic_set_intprio demo_cfg 2 200 zero_state)) \<and>
   \<not> clic_is_pending demo_cfg 2 (clic_init demo_cfg (clic_set_intprio demo_cfg 2 200 zero_state)) \<and>
   clic_interrupt_count (clic_init demo_cfg (clic_set_intprio demo_cfg 2 200 zero_state)) ! 2 = 0 \<and>
   clic_get_mithreshold demo_cfg 0 (clic_init demo_cfg (clic_set_intprio demo_cfg 2 200 zero_state)) = 0 \<and>
   clic_get_intprio demo_cfg 2 (clic_init demo_cfg (clic_set_intprio demo_cfg 2 200 zero_state)) = 200"
proof -
  let ?s = "clic_set_intprio demo_cfg 2 200 zero_state"
  have v: "valid_irq demo_cfg 2"
    by (simp add: valid_irq_def demo_cfg_def)
  have ok: "state_ok demo_cfg ?s"
    by (simp add: state_ok_def clic_set_intprio_def demo_cfg_def zero_state_def)
  have q: "clic_get_intprio demo_cfg 2 ?s = 200"
    by (simp add: clic_get_intprio_def clic_set_intprio_def)
  show ?thesis
    using v ok q demo_cfg_ok clic_init_resets_lines [OF ok v]
    by simp
qed

text \<open>
  The claim as stated fails: a line configured with priority 200, as
  \<open>test_priority_preemption\<close> leaves line 2, still has priority 200 after
  \<open>clic_init\<close>.
\<close>

theorem clic_init_priority_counterexample:
  "valid_irq demo_cfg 2 \<and>
   state_ok demo_cfg (clic_set_intprio demo_cfg 2 200 zero_state) \<and>
   clic_get_intprio demo_cfg 2
     (clic_init demo_cfg (clic_set_intprio demo_cfg 2 200 zero_state)) \<noteq> 0"
proof -
  let ?s = "clic_set_intprio demo_cfg 2 200 zero_state"
  have v: "valid_irq demo_cfg 2"
    by (simp add: valid_irq_def demo_cfg_def)
  have ok: "state_ok demo_cfg ?s"
    by (simp add: state_ok_def clic_set_intprio_def demo_cfg_def zero_state_def)
  have q: "clic_get_intprio demo_cfg 2 ?s = 200"
    by (simp add: clic_get_intprio_def clic_set_intprio_def)
  show ?thesis
    using v ok q clic_init_kept(1) [OF demo_cfg_ok v, of ?s] by simp
qed

section \<open>Ids outside the valid range\<close>

text \<open>
  Claim C2, as amended. No function of the header checks its id or returns an error.
  For every id, also one at or above \<open>CONFIG_CPU_INTERRUPTS\<close>,
  \<open>clic_set_pending\<close> and \<open>clic_configure_interrupt\<close> complete and write the
  register bytes at the id's offset, so that the pending bit and the priority read back
  as written; they agree with the specification's \<open>set_pending\<close> and
  \<open>configure\<close> exactly on the valid ids.
\<close>

theorem out_of_range_id_not_rejected:
  "(set_pending_spec c irq s = call_void (clic_set_pending c irq) s) = valid_irq c irq \<and>
   (configure_spec c irq priority edge_triggered positive_polarity s =
      call_void (clic_configure_interrupt c irq priority edge_triggered positive_polarity) s)
     = valid_irq c irq \<and>
   call_void (clic_set_pending c irq) s \<noteq> Inl InvalidLine \<and>
   call_void (clic_configure_interrupt c irq priority edge_triggered positive_polarity) s
     \<noteq> Inl InvalidLine \<and>
   clic_is_pending c irq (clic_set_pending c irq s) \<and>
   clic_get_intprio c irq
     (clic_configure_interrupt c irq priority edge_triggered positive_polarity s) = priority"
  by (simp add: set_pending_spec_def configure_spec_def call_void_def valid_irq_def
      clic_is_pending_def clic_set_pending_def clic_configure_interrupt_def clic_regs Let_def
      not_less)

text \<open>
  The claim as stated fails: with 32 lines, id 32 is not rejected by either function,
  and \<open>clic_set_pending\<close> of id 0x400 writes the enable byte of line 0.
\<close>

theorem invalid_line_counterexample:
  "\<not> valid_irq demo_cfg 32 \<and>
   set_pending_spec demo_cfg 32 zero_state = Inl InvalidLine \<and>
   call_void (clic_set_pending demo_cfg 32) zero_state \<noteq> Inl InvalidLine \<and>
   configure_spec demo_cfg 32 64 True True zero_state = Inl InvalidLine \<and>
   call_void (clic_configure_interrupt demo_cfg 32 64 True True) zero_state \<noteq> Inl InvalidLine \<and>
   clic_is_pending demo_cfg 32 (clic_set_pending demo_cfg 32 zero_state) \<and>
   \<not> valid_irq demo_cfg 0x400 \<and>
   \<not> is_enabled demo_cfg 0 zero_state \<and>
   is_enabled demo_cfg 0 (clic_set_pending demo_cfg 0x400 zero_state)"
  by (simp add: valid_irq_def demo_cfg_def set_pending_spec_def configure_spec_def call_void_def
      clic_ops clic_regs clic_addrs clic_offsets zero_state_def)


section \<open>The threshold gate\<close>

text \<open>
  Claim C1. For a valid line that is enabled and pending: when the threshold of hart 0
  is not 0 and the line's priority is at or above it, the line is blocked, the arbiter
  does not select it, and no number of polls of the dispatch loop services it; when the
  threshold is 0, or the priority is below it, the line is not blocked and the dispatch
  loop services it within \<open>CONFIG_CPU_INTERRUPTS\<close> polls, whatever its priority,
  priority 0 included. The two thresholds the demo sets agree with the gate: after
  \<open>clic_init\<close> (threshold 0) no priority is blocked, and under the threshold 100 of
  \<open>test_interrupt_threshold\<close> the blocked priorities are the ones the test does not
  label as allowed.
\<close>

theorem threshold_gate:
  assumes "cfg_ok c" and "state_ok c s" and "valid_irq c irq"
    and "is_enabled c irq s" and "clic_is_pending c irq s"
  shows "(clic_get_mithreshold c 0 s \<noteq> 0 \<and>
          clic_get_intprio c irq s \<ge> clic_get_mithreshold c 0 s \<longrightarrow>
            blocked (clic_get_intprio c irq s) (clic_get_mithreshold c 0 s) \<and>
            \<not> eligible c irq s \<and>
            select_next c s \<noteq> Some irq \<and>
            (\<forall>m. \<exists>s'. dispatch_polls c m s = Inr s' \<and>
               clic_interrupt_count s' ! unat irq = clic_interrupt_count s ! unat irq)) \<and>
         (clic_get_mithreshold c 0 s = 0 \<or>
          clic_get_intprio c irq s < clic_get_mithreshold c 0 s \<longrightarrow>
            \<not> blocked (clic_get_intprio c irq s) (clic_get_mithreshold c 0 s) \<and>
            eligible c irq s \<and>
            (\<exists>k<CONFIG_CPU_INTERRUPTS c. \<forall>m. \<exists>s'. dispatch_polls c m s = Inr s' \<and>
               clic_interrupt_count s' ! unat irq =
                 (if m \<le> k then clic_interrupt_count s ! unat irq
                  else clic_interrupt_count s ! unat irq + 1))) \<and>
         \<not> blocked priority (clic_get_mithreshold c 0 (clic_init c s)) \<and>
         (blocked priority (clic_get_mithreshold c 0 (clic_set_mithreshold c 0 100 s))
            \<longleftrightarrow> \<not> threshold_test_allowed (ucast priority))"
proof -
  let ?t = "clic_get_mithreshold c 0 s" and ?p = "clic_get_intprio c irq s"
  have el: "eligible c irq s \<longleftrightarrow> \<not> blocked ?p ?t"
    using assms(4,5) by (simp add: eligible_def)
  have never: "select_next c s \<noteq> Some irq \<and>
      (\<forall>m. \<exists>s'. dispatch_polls c m s = Inr s' \<and>
         clic_interrupt_count s' ! unat irq = clic_interrupt_count s ! unat irq)"
    if b: "blocked ?p ?t"
  proof -
    have ne: "\<not> eligible c irq s"
      using b el by simp
    then have "select_next c s \<noteq> Some irq"
      using select_next_Some(2) [OF assms(1), of s irq] by blast
    moreover have "\<exists>s'. dispatch_polls c m s = Inr s' \<and>
         clic_interrupt_count s' ! unat irq = clic_interrupt_count s ! unat irq" for m
      by (rule not_eligible_not_serviced [OF assms(1,3,2) ne])
    ultimately show ?thesis
      by blast
  qed
  have once: "\<exists>k<CONFIG_CPU_INTERRUPTS c. \<forall>m. \<exists>s'. dispatch_polls c m s = Inr s' \<and>
       clic_interrupt_count s' ! unat irq =
         (if m \<le> k then clic_interrupt_count s ! unat irq
          else clic_interrupt_count s ! unat irq + 1)"
    if nb: "\<not> blocked ?p ?t"
  proof -
    have e: "eligible c irq s"
      using nb el by simp
    from serviced_once [OF assms(1,3,2) e refl]
    obtain k where k: "k < card {k. k < CONFIG_CPU_INTERRUPTS c \<and> eligible c (of_nat k) s}"
      and all: "\<forall>m. \<exists>s'. dispatch_polls c m s = Inr s' \<and>
        clic_interrupt_count s' ! unat irq =
          (if m \<le> k then clic_interrupt_count s ! unat irq
           else clic_interrupt_count s ! unat irq + 1)"
      by blast
    have "k < CONFIG_CPU_INTERRUPTS c"
      using k eligible_card_le [of c s] by simp
    with all show ?thesis
      by blast
  qed
  have b1: "?t \<noteq> 0 \<and> ?p \<ge> ?t \<longrightarrow> blocked ?p ?t"
    and b2: "?t = 0 \<or> ?p < ?t \<longrightarrow> \<not> blocked ?p ?t"
    by (auto simp: blocked_def not_le)
  have src: "\<not> blocked priority (clic_get_mithreshold c 0 (clic_init c s))"
    "blocked priority (clic_get_mithreshold c 0 (clic_set_mithreshold c 0 100 s))
       \<longleftrightarrow> \<not> threshold_test_allowed (ucast priority)"
    by (simp_all add: blocked_def threshold_test_allowed_def clic_get_mithreshold_def
        clic_set_mithreshold_def clic_init_mem not_less ucast_prio_less)
  show ?thesis
    using never once b1 b2 src el by blast
qed


theorem threshold_gate_witness:
  "cfg_ok demo_cfg \<and> state_ok demo_cfg threshold_test_state \<and>
   valid_irq demo_cfg 10 \<and> valid_irq demo_cfg 11 \<and>
   is_enabled demo_cfg 10 threshold_test_state \<and> clic_is_pending demo_cfg 10 threshold_test_state \<and>
   is_enabled demo_cfg 11 threshold_test_state \<and> clic_is_pending demo_cfg 11 threshold_test_state \<and>
   clic_get_mithreshold demo_cfg 0 threshold_test_state = 100 \<and>
   clic_get_intprio demo_cfg 10 threshold_test_state = 50 \<and>
   clic_get_intprio demo_cfg 11 threshold_test_state = 128 \<and>
   select_next demo_cfg threshold_test_state \<noteq> Some 11 \<and>
   (\<forall>m. \<exists>s'. dispatch_polls demo_cfg m threshold_test_state = Inr s' \<and>
      clic_interrupt_count s' ! 11 = 0) \<and>
   (\<exists>k<32. \<forall>m. \<exists>s'. dispatch_polls demo_cfg m threshold_test_state = Inr s' \<and>
      clic_interrupt_count s' ! 10 = (if m \<le> k then 0 else 1)) \<and>
   clic_get_mithreshold demo_cfg 0 (clic_set_mithreshold demo_cfg 0 0 threshold_test_state) = 0 \<and>
   (\<exists>k<32. \<forall>m. \<exists>s'.
      dispatch_polls demo_cfg m (clic_set_mithreshold demo_cfg 0 0 threshold_test_state) = Inr s' \<and>
      clic_interrupt_count s' ! 11 = (if m \<le> k then 0 else 1))"
proof -
  let ?s = "threshold_test_state"
  let ?z = "clic_set_mithreshold demo_cfg 0 0 threshold_test_state"
  have v: "valid_irq demo_cfg 10" "valid_irq demo_cfg 11"
    by (simp_all add: valid_irq_def demo_cfg_def)
  have ok: "state_ok demo_cfg ?s" "state_ok demo_cfg ?z"
    by (simp_all add: state_ok_def threshold_test_state_def clic_configure_interrupt_def
        clic_ops clic_regs Let_def demo_cfg_def zero_state_def)
  have cnt: "clic_interrupt_count ?s = replicate 32 0" "clic_interrupt_count ?z = replicate 32 0"
    by (simp_all add: threshold_test_state_def clic_configure_interrupt_def
        clic_ops clic_regs Let_def zero_state_def)
  have r: "is_enabled demo_cfg 10 ?s" "clic_is_pending demo_cfg 10 ?s"
    "is_enabled demo_cfg 11 ?s" "clic_is_pending demo_cfg 11 ?s"
    "clic_get_mithreshold demo_cfg 0 ?s = 100"
    "clic_get_intprio demo_cfg 10 ?s = 50" "clic_get_intprio demo_cfg 11 ?s = 128"
    by (simp_all add: threshold_test_state_def clic_configure_interrupt_def clic_ops clic_regs
        clic_addrs clic_offsets Let_def demo_cfg_def zero_state_def)
  have rz: "is_enabled demo_cfg 11 ?z" "clic_is_pending demo_cfg 11 ?z"
    "clic_get_mithreshold demo_cfg 0 ?z = 0"
    by (simp_all add: threshold_test_state_def clic_configure_interrupt_def clic_ops clic_regs
        clic_addrs clic_offsets Let_def demo_cfg_def zero_state_def)
  have u: "unat (10 :: 32 word) = 10" "unat (11 :: 32 word) = 11"
    by simp_all
  have n: "CONFIG_CPU_INTERRUPTS demo_cfg = 32"
    by (simp add: demo_cfg_def)
  have x: "replicate 32 (0 :: 32 word) ! 10 = 0" "replicate 32 (0 :: 32 word) ! 11 = 0"
    by simp_all
  note blocked11 = threshold_gate [OF demo_cfg_ok ok(1) v(2) r(3,4), of 0,
      unfolded r u n cnt x add_0]
  note open10 = threshold_gate [OF demo_cfg_ok ok(1) v(1) r(1,2), of 0,
      unfolded r u n cnt x add_0]
  note zero11 = threshold_gate [OF demo_cfg_ok ok(2) v(2) rz(1,2), of 0,
      unfolded rz u n cnt x add_0]
  have a: "select_next demo_cfg ?s \<noteq> Some 11"
    "\<forall>m. \<exists>s'. dispatch_polls demo_cfg m ?s = Inr s' \<and> clic_interrupt_count s' ! 11 = 0"
    using blocked11 by simp_all
  have b: "\<exists>k<32. \<forall>m. \<exists>s'. dispatch_polls demo_cfg m ?s = Inr s' \<and>
      clic_interrupt_count s' ! 10 = (if m \<le> k then 0 else 1)"
    using open10 by simp
  have d: "\<exists>k<32. \<forall>m. \<exists>s'. dispatch_polls demo_cfg m ?z = Inr s' \<and>
      clic_interrupt_count s' ! 11 = (if m \<le> k then 0 else 1)"
    using zero11 by simp
  show ?thesis
    using demo_cfg_ok ok(1) v r rz(3) a b d by blast
qed

section \<open>Timeouts of the latency measurement\<close>

text \<open>
  Claim C8, as amended. An iteration of \<open>test_interrupt_latency\<close> is reported as
  \<open>TIMEOUT\<close> exactly when the counter reads 0 in the check after the wait loop, in
  particular when every read up to and including that check reads 0; such an iteration
  leaves \<open>total_latency\<close> as it was, every other iteration reports its cycle count
  and adds it, and the final \<open>total_latency\<close> is the sum of the reported cycle
  counts. The average is printed only when the total is positive and divides it by all
  ten iterations, timed out or not.
\<close>

theorem latency_timeout_reported:
  assumes "i < iterations"
  shows "fst (test_interrupt_latency obs) ! i = snd (latency_trial (obs i) total_latency) \<and>
         (fst (test_interrupt_latency obs) ! i = Inl Timeout)
           = (obs i (unat (wait_for_service (obs i) 0) + 1) = 0) \<and>
         (latency_trial (obs i) total_latency = (total_latency, Inl Timeout))
           = (obs i (unat (wait_for_service (obs i) 0) + 1) = 0) \<and>
         (obs i (unat (wait_for_service (obs i) 0) + 1) \<noteq> 0 \<longrightarrow>
            latency_trial (obs i) total_latency =
              (total_latency + wait_for_service (obs i) 0, Inr (wait_for_service (obs i) 0))) \<and>
         ((\<forall>k \<le> 10001. obs i k = 0) \<longrightarrow> fst (test_interrupt_latency obs) ! i = Inl Timeout) \<and>
         fst (snd (test_interrupt_latency obs)) =
           sum_list (samples (fst (test_interrupt_latency obs))) \<and>
         snd (snd (test_interrupt_latency obs)) =
           (if fst (snd (test_interrupt_latency obs)) > 0
            then Some (fst (snd (test_interrupt_latency obs)) div 10)
            else None)"
proof -
  have rep: "fst (test_interrupt_latency obs) = map (\<lambda>j. snd (latency_trial (obs j) 0)) [0..<iterations]"
    and tot: "fst (snd (test_interrupt_latency obs)) =
        sum_list (samples (map (\<lambda>j. snd (latency_trial (obs j) 0)) [0..<iterations]))"
    by (simp_all add: test_interrupt_latency_def latency_loop_eq)
  have nth: "fst (test_interrupt_latency obs) ! i = snd (latency_trial (obs i) 0)"
    using assms by (simp add: rep)
  have a: "(fst (test_interrupt_latency obs) ! i = Inl Timeout)
           = (obs i (unat (wait_for_service (obs i) 0) + 1) = 0)"
    unfolding nth by (simp add: latency_trial_def Let_def word_greater_zero_iff)
  have b: "(\<forall>k \<le> 10001. obs i k = 0) \<longrightarrow> fst (test_interrupt_latency obs) ! i = Inl Timeout"
    unfolding nth using latency_trial_timeout [of "obs i" 0] by simp
  have avg: "snd (snd (test_interrupt_latency obs)) =
           (if fst (snd (test_interrupt_latency obs)) > 0
            then Some (fst (snd (test_interrupt_latency obs)) div 10)
            else None)"
    by (simp add: test_interrupt_latency_def iterations_def split: prod.splits)
  have r: "fst (test_interrupt_latency obs) ! i = snd (latency_trial (obs i) total_latency)"
    unfolding nth by (rule latency_trial_report [symmetric])
  show ?thesis
    using r a b avg rep tot latency_trial_timeout_iff [of "obs i" total_latency]
      latency_trial_serviced [of "obs i" total_latency]
    by simp
qed


theorem latency_timeout_reported_witness:
  "(3::nat) < iterations \<and>
   fst (test_interrupt_latency (\<lambda>i k. if i = 3 then 0 else 1)) ! 3 = Inl Timeout \<and>
   latency_trial (\<lambda>k. 0) 500 = (500, Inl Timeout) \<and>
   latency_trial (\<lambda>k. 1) 500 = (500, Inr 0) \<and>
   fst (test_interrupt_latency (\<lambda>i k. 1)) ! 3 = Inr 0"
proof -
  have i: "(3::nat) < iterations"
    by (simp add: iterations_def)
  note t = latency_timeout_reported [OF i, of "\<lambda>i k. if i = 3 then 0 else 1" 500]
  note z = latency_timeout_reported [OF i, of "\<lambda>i k. 0" 500]
  note o = latency_timeout_reported [OF i, of "\<lambda>i k. 1" 500]
  have 1: "fst (test_interrupt_latency (\<lambda>i k. if i = 3 then 0 else 1)) ! 3 = Inl Timeout"
    using t by simp
  have 2: "latency_trial (\<lambda>k. 0) 500 = (500, Inl Timeout)"
    using z by simp
  have 3: "latency_trial (\<lambda>k. 1) 500 = (500, Inr 0)"
    using o by (simp add: wait_serviced_at_once)
  have 4: "fst (test_interrupt_latency (\<lambda>i k. 1)) ! 3 = Inr 0"
    using o 3 by (simp add: wait_serviced_at_once)
  show ?thesis
    using i 1 2 3 4 by blast
qed


text \<open>
  The claim as stated fails. When the counter reads 0 at every evaluation of the loop
  condition, so that the loop ends by its cap of 10000, and the service lands before the
  check after the loop, the iteration is reported as a sample of 10000 cycles and not as
  a timeout. And a timed-out iteration leaves the same \<open>total_latency\<close>, hence the
  same average, as an iteration serviced in 0 cycles.
\<close>

theorem latency_late_service_counterexample:
  "\<not> (\<exists>k \<le> 10000. late_obs k \<noteq> 0) \<and>
   wait_for_service late_obs 0 = 10000 \<and>
   latency_trial late_obs 500 = (10500, Inr 10000) \<and>
   latency_trial (\<lambda>k. 0) 500 = (500, Inl Timeout) \<and>
   latency_trial (\<lambda>k. 1) 500 = (500, Inr 0)"
proof -
  have 1: "\<not> (\<exists>k \<le> 10000. late_obs k \<noteq> 0)"
    by (simp add: late_obs_def)
  have 2: "latency_trial late_obs 500 = (10500, Inr 10000)"
    by (simp add: latency_trial_def wait_late_obs) (simp add: late_obs_def)
  have 3: "latency_trial (\<lambda>k. 0) 500 = (500, Inl Timeout)"
    by (rule latency_trial_timeout) simp
  have 4: "latency_trial (\<lambda>k. 1) 500 = (500, Inr 0)"
    by (simp add: latency_trial_def wait_serviced_at_once)
  show ?thesis
    using 1 2 3 4 wait_late_obs by blast
qed

section \<open>One service per set-pending under the default handler\<close>

text \<open>
  Claim C10. For a valid id the default handler clears the pending bit whatever the
  line's trigger mode, so the dispatch loop's own clearing for edge-triggered lines adds
  nothing to it. Consequently, for an enabled line whose priority the threshold does not
  block, edge- or level-triggered alike, one \<open>clic_set_pending\<close> leads to exactly
  one service: there is a poll, among the first \<open>CONFIG_CPU_INTERRUPTS\<close>, up to
  which the line's counter is unchanged and after which it is one higher, however many
  polls follow.
\<close>

theorem default_handler_one_service_per_set_pending:
  assumes "cfg_ok c" and "state_ok c s" and "valid_irq c irq"
    and "is_enabled c irq s"
    and "\<not> blocked (clic_get_intprio c irq s) (clic_get_mithreshold c 0 s)"
  shows "(\<exists>s'. clic_interrupt_handler c irq priority (clic_set_pending c irq s) = Inr s' \<and>
            \<not> clic_is_pending c irq s') \<and>
         service c irq (clic_set_pending c irq s) =
           clic_interrupt_handler c irq (ucast (clic_get_intprio c irq s)) (clic_set_pending c irq s) \<and>
         (\<exists>k<CONFIG_CPU_INTERRUPTS c. \<forall>m. \<exists>s'.
            dispatch_polls c m (clic_set_pending c irq s) = Inr s' \<and>
            clic_interrupt_count s' ! unat irq =
              (if m \<le> k then clic_interrupt_count s ! unat irq
               else clic_interrupt_count s ! unat irq + 1))"
proof -
  let ?p = "clic_set_pending c irq s"
  note d = line_addrs_distinct [OF assms(1) assms(3) assms(3)]
  have ok: "state_ok c ?p"
    using assms(2) by (simp add: state_ok_def clic_set_pending_def clic_set_intip_def)
  have regs: "clic_get_intprio c irq ?p = clic_get_intprio c irq s"
    "clic_get_mithreshold c 0 ?p = clic_get_mithreshold c 0 s"
    "clic_get_intie c irq ?p = clic_get_intie c irq s"
    using d by (simp_all add: clic_set_pending_def clic_regs)
  have cnt: "clic_interrupt_count ?p = clic_interrupt_count s"
    by (simp add: clic_set_pending_def clic_set_intip_def)
  have el: "eligible c irq ?p"
    using assms(4,5) regs
    by (simp add: eligible_def is_enabled_def clic_is_pending_def clic_set_pending_def
        clic_get_intip_def clic_set_intip_def)
  have h: "\<exists>s'. clic_interrupt_handler c irq priority ?p = Inr s' \<and> \<not> clic_is_pending c irq s'"
    by (simp add: handler_valid [OF ok assms(3)] clic_is_pending_def clic_clear_pending_def
        clic_get_intip_def clic_set_intip_def)
  have sv: "service c irq ?p = clic_interrupt_handler c irq (ucast (clic_get_intprio c irq s)) ?p"
    using service_valid(1) [OF ok assms(3)] regs(1) by simp
  from serviced_once [OF assms(1,3) ok el refl]
  obtain k where k: "k < card {k. k < CONFIG_CPU_INTERRUPTS c \<and> eligible c (of_nat k) ?p}"
    and all: "\<forall>m. \<exists>s'. dispatch_polls c m ?p = Inr s' \<and>
        clic_interrupt_count s' ! unat irq =
          (if m \<le> k then clic_interrupt_count ?p ! unat irq
           else clic_interrupt_count ?p ! unat irq + 1)"
    by blast
  have "k < CONFIG_CPU_INTERRUPTS c"
    using k eligible_card_le [of c ?p] by simp
  with all [unfolded cnt] have "\<exists>k<CONFIG_CPU_INTERRUPTS c. \<forall>m. \<exists>s'.
      dispatch_polls c m ?p = Inr s' \<and>
      clic_interrupt_count s' ! unat irq =
        (if m \<le> k then clic_interrupt_count s ! unat irq
         else clic_interrupt_count s ! unat irq + 1)"
    by blast
  with h sv show ?thesis
    by blast
qed

theorem default_handler_one_service_per_set_pending_witness:
  "cfg_ok demo_cfg \<and> state_ok demo_cfg level_line_state \<and> valid_irq demo_cfg 16 \<and>
   is_enabled demo_cfg 16 level_line_state \<and>
   \<not> is_edge_triggered demo_cfg 16 level_line_state \<and>
   \<not> blocked (clic_get_intprio demo_cfg 16 level_line_state)
        (clic_get_mithreshold demo_cfg 0 level_line_state) \<and>
   (\<exists>s'. clic_interrupt_handler demo_cfg 16 128
            (clic_set_pending demo_cfg 16 level_line_state) = Inr s' \<and>
         \<not> clic_is_pending demo_cfg 16 s') \<and>
   (\<exists>k<32. \<forall>m. \<exists>s'.
      dispatch_polls demo_cfg m (clic_set_pending demo_cfg 16 level_line_state) = Inr s' \<and>
      clic_interrupt_count s' ! 16 = (if m \<le> k then 0 else 1))"
proof -
  have v: "valid_irq demo_cfg 16"
    by (simp add: valid_irq_def demo_cfg_def)
  have ok: "state_ok demo_cfg level_line_state"
    by (simp add: state_ok_def level_line_state_def clic_configure_interrupt_def clic_ops
        clic_regs Let_def demo_cfg_def zero_state_def)
  have e: "is_enabled demo_cfg 16 level_line_state"
    and l: "\<not> is_edge_triggered demo_cfg 16 level_line_state"
    and q: "clic_get_intprio demo_cfg 16 level_line_state = 128"
    and t: "clic_get_mithreshold demo_cfg 0 level_line_state = 0"
    and z: "clic_interrupt_count level_line_state ! 16 = 0"
    by (simp_all add: level_line_state_def clic_configure_interrupt_def clic_ops clic_regs
        clic_addrs clic_offsets Let_def demo_cfg_def zero_state_def is_edge_triggered_def
        CLIC_ATTR_TRIG_MASK_def CLIC_ATTR_TRIG_EDGE_def CLIC_ATTR_POL_POS_def)
  have b: "\<not> blocked (clic_get_intprio demo_cfg 16 level_line_state)
        (clic_get_mithreshold demo_cfg 0 level_line_state)"
    by (simp add: q t blocked_def)
  have n: "CONFIG_CPU_INTERRUPTS demo_cfg = 32"
    by (simp add: demo_cfg_def)
  have u: "unat (16 :: 32 word) = 16"
    by simp
  note one = default_handler_one_service_per_set_pending [OF demo_cfg_ok ok v e b, of 128]
  show ?thesis
    using v ok e l b demo_cfg_ok one [unfolded u z n add_0]
    by blast
qed

end
